theory Spec2Isabelle
  imports Main
begin

section \<open>Errors and allocation sites\<close>

text \<open>
  Every exception the class throws is a \<^verbatim>\<open>std::invalid_argument\<close> carrying one of two
  messages; an allocation that fails throws \<^verbatim>\<open>std::bad_alloc\<close>.  Dereferencing a null
  \<^verbatim>\<open>shared_ptr\<close>, an end iterator or the front of an empty \<^verbatim>\<open>std::list\<close> has no defined
  behaviour in C++; the model makes each such place a branch of its own.
\<close>

datatype error = invalid_argument string | bad_alloc | undefined_behaviour

abbreviation EmptyCollection :: error where
  "EmptyCollection \<equiv> invalid_argument ''Empty queue''"

abbreviation KeyNotFound :: error where
  "KeyNotFound \<equiv> invalid_argument ''Key not found''"

text \<open>
  The places of \<^verbatim>\<open>kvfifo.h\<close> that allocate: \<^verbatim>\<open>make_shared<container_t>()\<close>,
  \<^verbatim>\<open>make_shared<container_t>(*dataPtr)\<close> (the deep clone), \<^verbatim>\<open>pair_list.push_back\<close>,
  \<^verbatim>\<open>push_back\<close> on a bucket, and \<^verbatim>\<open>iterator_list_map.insert\<close>.  An oracle
  \<open>oom\<close> says which of them fail during one call.
\<close>

datatype alloc_site = AtMakeShared | AtClone | AtQueueNode | AtBucketNode | AtMapNode

definition no_oom :: "alloc_site \<Rightarrow> bool" where
  "no_oom s = False"

section \<open>The standard containers\<close>

text \<open>
  \<^verbatim>\<open>std::list<std::pair<K const, V>>\<close>: a list of nodes; a node is its handle (what a
  \<^verbatim>\<open>k_v_queue_iterator_t\<close> holds), its key and its value.  Handles stay valid while other nodes
  come and go.  \<^verbatim>\<open>std::map<K, std::list<iterator>>\<close>: an association list kept in ascending
  key order, one pair per key.
\<close>

type_synonym ('k, 'v) k_v_queue_t = "(nat \<times> 'k \<times> 'v) list"
type_synonym 'k k_v_map_t = "('k \<times> nat list) list"

fun fresh_node :: "('k, 'v) k_v_queue_t \<Rightarrow> nat" where
  "fresh_node [] = 0"
| "fresh_node (e # l) = max (Suc (fst e)) (fresh_node l)"

definition list_push_back :: "'k \<Rightarrow> 'v \<Rightarrow> ('k, 'v) k_v_queue_t \<Rightarrow> ('k, 'v) k_v_queue_t" where
  "list_push_back k v l = l @ [(fresh_node l, k, v)]"

definition list_erase :: "nat \<Rightarrow> ('k, 'v) k_v_queue_t \<Rightarrow> ('k, 'v) k_v_queue_t" where
  "list_erase n l = filter (\<lambda>e. fst e \<noteq> n) l"

definition node_at :: "nat \<Rightarrow> ('k, 'v) k_v_queue_t \<Rightarrow> (nat \<times> 'k \<times> 'v) option" where
  "node_at n l = find (\<lambda>e. fst e = n) l"

definition map_find :: "'k \<Rightarrow> 'k k_v_map_t \<Rightarrow> nat list option" where
  "map_find k m = map_of m k"

fun map_insert :: "'k::linorder \<Rightarrow> nat list \<Rightarrow> 'k k_v_map_t \<Rightarrow> 'k k_v_map_t" where
  "map_insert k b [] = [(k, b)]"
| "map_insert k b ((a, x) # ps) =
     (if k < a then (k, b) # (a, x) # ps
      else if k = a then (a, x) # ps
      else (a, x) # map_insert k b ps)"

definition map_erase :: "'k \<Rightarrow> 'k k_v_map_t \<Rightarrow> 'k k_v_map_t" where
  "map_erase k m = filter (\<lambda>e. fst e \<noteq> k) m"

definition map_update :: "'k \<Rightarrow> (nat list \<Rightarrow> nat list) \<Rightarrow> 'k k_v_map_t \<Rightarrow> 'k k_v_map_t" where
  "map_update k f m = map (\<lambda>e. if fst e = k then (fst e, f (snd e)) else e) m"

section \<open>container_t\<close>

record ('k, 'v) container_t =
  iterator_list_map :: "'k k_v_map_t"
  pair_list :: "('k, 'v) k_v_queue_t"

definition empty_container :: "('k, 'v) container_t" where
  "empty_container = \<lparr>iterator_list_map = [], pair_list = []\<rparr>"

text \<open>The copy constructor of \<^verbatim>\<open>container_t\<close> (lines 377-399): two loops, then two swaps.\<close>

definition copy_list :: "('k, 'v) k_v_queue_t \<Rightarrow> ('k, 'v) k_v_queue_t" where
  "copy_list l = fold (\<lambda>e new_list. list_push_back (fst (snd e)) (snd (snd e)) new_list) l []"

definition index_node :: "nat \<times> 'k \<times> 'v \<Rightarrow> ('k::linorder) k_v_map_t \<Rightarrow> 'k k_v_map_t" where
  "index_node e new_map =
     (case map_find (fst (snd e)) new_map of
        None \<Rightarrow> map_insert (fst (snd e)) [fst e] new_map
      | Some b \<Rightarrow> map_update (fst (snd e)) (\<lambda>b. b @ [fst e]) new_map)"

definition container_copy :: "('k::linorder, 'v) container_t \<Rightarrow> ('k, 'v) container_t" where
  "container_copy other =
     (let new_list = copy_list (pair_list other);
          new_map = fold index_node new_list []
      in \<lparr>iterator_list_map = new_map, pair_list = new_list\<rparr>)"

section \<open>The bodies of the mutators, on one container\<close>

text \<open>
  Each definition is the part of a member function between \<^verbatim>\<open>aboutToModify()\<close> and
  \<^verbatim>\<open>guard.no_rollback()\<close>.  It returns the result and the container as the body leaves it,
  also when it throws.
\<close>

text \<open>\<^verbatim>\<open>push\<close>, lines 54-69.\<close>

definition push_body ::
  "'k::linorder \<Rightarrow> 'v \<Rightarrow> (alloc_site \<Rightarrow> bool) \<Rightarrow> ('k, 'v) container_t
     \<Rightarrow> (error + unit) \<times> ('k, 'v) container_t" where
  "push_body k v oom c =
     (let it = map_find k (iterator_list_map c) in
      if oom AtQueueNode then (Inl bad_alloc, c)
      else
        let c1 = c\<lparr>pair_list := list_push_back k v (pair_list c)\<rparr>;
            n = fst (last (pair_list c1))
        in (case it of
              None \<Rightarrow>
                if oom AtBucketNode \<or> oom AtMapNode
                then (Inl bad_alloc, c1\<lparr>pair_list := butlast (pair_list c1)\<rparr>)
                else (Inr (), c1\<lparr>iterator_list_map := map_insert k [n] (iterator_list_map c1)\<rparr>)
            | Some b \<Rightarrow>
                if oom AtBucketNode
                then (Inl bad_alloc, c1\<lparr>pair_list := butlast (pair_list c1)\<rparr>)
                else (Inr (), c1\<lparr>iterator_list_map :=
                                    map_update k (\<lambda>b. b @ [n]) (iterator_list_map c1)\<rparr>)))"

text \<open>\<^verbatim>\<open>pop()\<close>, lines 82-89.\<close>

definition pop_body ::
  "('k, 'v) container_t \<Rightarrow> (error + unit) \<times> ('k, 'v) container_t" where
  "pop_body c =
     (case pair_list c of
        [] \<Rightarrow> (Inl undefined_behaviour, c)
      | e # rest \<Rightarrow>
          (case map_find (fst (snd e)) (iterator_list_map c) of
             None \<Rightarrow> (Inl undefined_behaviour, c)
           | Some b \<Rightarrow>
               (case b of
                  [] \<Rightarrow> (Inl undefined_behaviour, c)
                | n # b' \<Rightarrow>
                    let m1 = map_update (fst (snd e)) tl (iterator_list_map c);
                        m2 = (if b' = [] then map_erase (fst (snd e)) m1 else m1)
                    in (Inr (), c\<lparr>iterator_list_map := m2, pair_list := rest\<rparr>))))"

text \<open>\<^verbatim>\<open>pop(K const &)\<close>, lines 102-113.\<close>

definition pop_key_body ::
  "'k \<Rightarrow> ('k, 'v) container_t \<Rightarrow> (error + unit) \<times> ('k, 'v) container_t" where
  "pop_key_body k c =
     (case map_find k (iterator_list_map c) of
        None \<Rightarrow> (Inl KeyNotFound, c)
      | Some b \<Rightarrow>
          (case b of
             [] \<Rightarrow> (Inl undefined_behaviour, c)
           | n # b' \<Rightarrow>
               (case node_at n (pair_list c) of
                  None \<Rightarrow> (Inl undefined_behaviour, c)
                | Some e \<Rightarrow>
                    let l1 = list_erase n (pair_list c);
                        m1 = map_update k tl (iterator_list_map c);
                        m2 = (if b' = [] then map_erase k m1 else m1)
                    in (Inr (), c\<lparr>iterator_list_map := m2, pair_list := l1\<rparr>))))"

text \<open>\<^verbatim>\<open>move_to_back\<close>, lines 126-134: the loop splices one node of the bucket after the other
  to the end of the queue.\<close>

fun splice_all :: "nat list \<Rightarrow> ('k, 'v) k_v_queue_t \<Rightarrow> error + ('k, 'v) k_v_queue_t" where
  "splice_all [] l = Inr l"
| "splice_all (n # ns) l =
     (case node_at n l of
        None \<Rightarrow> Inl undefined_behaviour
      | Some e \<Rightarrow> splice_all ns (list_erase n l @ [e]))"

definition move_to_back_body ::
  "'k \<Rightarrow> ('k, 'v) container_t \<Rightarrow> (error + unit) \<times> ('k, 'v) container_t" where
  "move_to_back_body k c =
     (case map_find k (iterator_list_map c) of
        None \<Rightarrow> (Inl KeyNotFound, c)
      | Some b \<Rightarrow>
          (case splice_all b (pair_list c) of
             Inl e \<Rightarrow> (Inl e, c)
           | Inr l' \<Rightarrow> (Inr (), c\<lparr>pair_list := l'\<rparr>)))"

text \<open>\<^verbatim>\<open>clear\<close>, lines 282-283.\<close>

definition clear_body ::
  "('k, 'v) container_t \<Rightarrow> (error + unit) \<times> ('k, 'v) container_t" where
  "clear_body c = (Inr (), c\<lparr>pair_list := [], iterator_list_map := []\<rparr>)"

text \<open>The accessors: what \<^verbatim>\<open>front\<close>, \<^verbatim>\<open>back\<close>, \<^verbatim>\<open>first\<close> and \<^verbatim>\<open>last\<close> read once the
  emptiness check has passed.  The node returned stands for the pair of references.\<close>

definition front_body :: "('k, 'v) container_t \<Rightarrow> error + (nat \<times> 'k \<times> 'v)" where
  "front_body c = (case pair_list c of [] \<Rightarrow> Inl undefined_behaviour | e # rest \<Rightarrow> Inr e)"

definition back_body :: "('k, 'v) container_t \<Rightarrow> error + (nat \<times> 'k \<times> 'v)" where
  "back_body c =
     (if pair_list c = [] then Inl undefined_behaviour else Inr (last (pair_list c)))"

definition first_body :: "'k \<Rightarrow> ('k, 'v) container_t \<Rightarrow> error + (nat \<times> 'k \<times> 'v)" where
  "first_body key c =
     (case map_find key (iterator_list_map c) of
        None \<Rightarrow> Inl KeyNotFound
      | Some b \<Rightarrow>
          (case b of
             [] \<Rightarrow> Inl undefined_behaviour
           | n # b' \<Rightarrow>
               (case node_at n (pair_list c) of
                  None \<Rightarrow> Inl undefined_behaviour
                | Some e \<Rightarrow> Inr e)))"

definition last_body :: "'k \<Rightarrow> ('k, 'v) container_t \<Rightarrow> error + (nat \<times> 'k \<times> 'v)" where
  "last_body key c =
     (case map_find key (iterator_list_map c) of
        None \<Rightarrow> Inl KeyNotFound
      | Some b \<Rightarrow>
          (if b = [] then Inl undefined_behaviour
           else (case node_at (last b) (pair_list c) of
                   None \<Rightarrow> Inl undefined_behaviour
                 | Some e \<Rightarrow> Inr e)))"

section \<open>Instances, storage cells and sharing\<close>

text \<open>
  A \<^verbatim>\<open>kvfifo\<close> object holds the flag \<^verbatim>\<open>unshareable\<close> and the \<^verbatim>\<open>shared_ptr\<close>
  \<^verbatim>\<open>dataPtr\<close>: \<open>None\<close> is the null pointer, \<open>Some p\<close> points at storage cell \<open>p\<close>.
  The world is the list of storage cells ever allocated (a cell's address is its index) and the
  table of objects ever constructed (an object's identity is its index; \<open>None\<close> marks a
  destroyed one).
\<close>

record kvfifo =
  unshareable :: bool
  dataPtr :: "nat option"

record ('k, 'v) world =
  cells :: "('k, 'v) container_t list"
  objs :: "kvfifo option list"

definition init_world :: "('k, 'v) world" where
  "init_world = \<lparr>cells = [], objs = []\<rparr>"

text \<open>Using an object that was destroyed or never constructed has no defined behaviour.\<close>

definition self :: "nat \<Rightarrow> ('k, 'v) world \<Rightarrow> error + kvfifo" where
  "self i w =
     (if i < length (objs w) then
        (case objs w ! i of
           None \<Rightarrow> Inl undefined_behaviour
         | Some x \<Rightarrow>
             (case dataPtr x of
                None \<Rightarrow> Inr x
              | Some p \<Rightarrow> if p < length (cells w) then Inr x else Inl undefined_behaviour))
      else Inl undefined_behaviour)"

definition set_obj :: "nat \<Rightarrow> kvfifo \<Rightarrow> ('k, 'v) world \<Rightarrow> ('k, 'v) world" where
  "set_obj i x w = w\<lparr>objs := (objs w)[i := Some x]\<rparr>"

definition new_obj :: "kvfifo \<Rightarrow> ('k, 'v) world \<Rightarrow> (error + nat) \<times> ('k, 'v) world" where
  "new_obj x w = (Inr (length (objs w)), w\<lparr>objs := objs w @ [Some x]\<rparr>)"

definition set_cell :: "nat \<Rightarrow> ('k, 'v) container_t \<Rightarrow> ('k, 'v) world \<Rightarrow> ('k, 'v) world" where
  "set_cell p c w = w\<lparr>cells := (cells w)[p := c]\<rparr>"

text \<open>\<^verbatim>\<open>std::make_shared<container_t>()\<close> and \<^verbatim>\<open>std::make_shared<container_t>(*ptr)\<close>.\<close>

definition make_shared_empty ::
  "(alloc_site \<Rightarrow> bool) \<Rightarrow> ('k, 'v) world \<Rightarrow> error + nat \<times> ('k, 'v) world" where
  "make_shared_empty oom w =
     (if oom AtMakeShared then Inl bad_alloc
      else Inr (length (cells w), w\<lparr>cells := cells w @ [empty_container]\<rparr>))"

definition make_shared_copy ::
  "nat \<Rightarrow> (alloc_site \<Rightarrow> bool) \<Rightarrow> ('k::linorder, 'v) world \<Rightarrow> error + nat \<times> ('k, 'v) world" where
  "make_shared_copy p oom w =
     (if oom AtClone then Inl bad_alloc
      else Inr (length (cells w), w\<lparr>cells := cells w @ [container_copy (cells w ! p)]\<rparr>))"

text \<open>\<^verbatim>\<open>copy_guard_t\<close>, lines 409-431.  The guard holds a second \<^verbatim>\<open>shared_ptr\<close> to the
  cell, which \<^verbatim>\<open>use_count\<close> counts.\<close>

record copy_guard_t =
  guarded :: nat
  guarded_data :: "nat option"
  guarded_unshareable :: bool

definition copy_guard :: "nat \<Rightarrow> kvfifo \<Rightarrow> copy_guard_t" where
  "copy_guard i x = \<lparr>guarded = i, guarded_data = dataPtr x, guarded_unshareable = unshareable x\<rparr>"

definition guard_rollback :: "copy_guard_t \<Rightarrow> ('k, 'v) world \<Rightarrow> ('k, 'v) world" where
  "guard_rollback g w =
     set_obj (guarded g) \<lparr>unshareable = guarded_unshareable g, dataPtr = guarded_data g\<rparr> w"

definition points_at :: "nat \<Rightarrow> kvfifo option \<Rightarrow> bool" where
  "points_at p ob = (case ob of None \<Rightarrow> False | Some y \<Rightarrow> dataPtr y = Some p)"

definition use_count :: "('k, 'v) world \<Rightarrow> copy_guard_t \<Rightarrow> nat option \<Rightarrow> nat" where
  "use_count w g ptr =
     (case ptr of
        None \<Rightarrow> 0
      | Some p \<Rightarrow> length (filter (points_at p) (objs w))
                  + (if guarded_data g = Some p then 1 else 0))"

text \<open>\<^verbatim>\<open>aboutToModify\<close>, lines 358-372.  It returns the object as it is afterwards, already
  stored in the world.\<close>

definition aboutToModify ::
  "bool \<Rightarrow> copy_guard_t \<Rightarrow> nat \<Rightarrow> kvfifo \<Rightarrow> (alloc_site \<Rightarrow> bool) \<Rightarrow> ('k::linorder, 'v) world
     \<Rightarrow> error + kvfifo \<times> ('k, 'v) world" where
  "aboutToModify markUnshareable g i x oom w =
     (if use_count w g (dataPtr x) > 2 \<and> \<not> unshareable x then
        (case dataPtr x of
           None \<Rightarrow> Inl undefined_behaviour
         | Some p \<Rightarrow>
             (case make_shared_copy p oom w of
                Inl e \<Rightarrow> Inl e
              | Inr (q, w1) \<Rightarrow>
                  let x1 = \<lparr>unshareable = markUnshareable, dataPtr = Some q\<rparr>
                  in Inr (x1, set_obj i x1 w1)))
      else
        let x1 = x\<lparr>unshareable := markUnshareable\<rparr>
        in Inr (x1, set_obj i x1 w))"

text \<open>
  The bracket every mutating member function shares: construct the guard, call
  \<^verbatim>\<open>aboutToModify\<close>, run the body on the cell \<^verbatim>\<open>dataPtr\<close> now points at, and either
  disarm the guard or let its destructor swap the captured pointer and flag back.  The result
  carries the address of the cell the body ran on.
\<close>

definition guarded_call ::
  "bool \<Rightarrow> (('k::linorder, 'v) container_t \<Rightarrow> (error + 'r) \<times> ('k, 'v) container_t)
     \<Rightarrow> nat \<Rightarrow> kvfifo \<Rightarrow> (alloc_site \<Rightarrow> bool) \<Rightarrow> ('k, 'v) world
     \<Rightarrow> (error + 'r \<times> nat) \<times> ('k, 'v) world" where
  "guarded_call markUnshareable body i x oom w =
     (let guard = copy_guard i x in
      case aboutToModify markUnshareable guard i x oom w of
        Inl e \<Rightarrow> (Inl e, guard_rollback guard w)
      | Inr (x1, w1) \<Rightarrow>
          (case dataPtr x1 of
             None \<Rightarrow> (Inl undefined_behaviour, w1)
           | Some p \<Rightarrow>
               (case body (cells w1 ! p) of
                  (Inl e, c) \<Rightarrow> (Inl e, guard_rollback guard (set_cell p c w1))
                | (Inr r, c) \<Rightarrow> (Inr (r, p), set_cell p c w1))))"

section \<open>The queries\<close>

text \<open>\<^verbatim>\<open>size\<close>, \<^verbatim>\<open>empty\<close>, \<^verbatim>\<open>count\<close> (lines 244-272), and the keys that a walk from
  \<^verbatim>\<open>k_begin()\<close> to \<^verbatim>\<open>k_end()\<close> produces (lines 341-355).\<close>

definition size_kv :: "('k, 'v) world \<Rightarrow> kvfifo \<Rightarrow> nat" where
  "size_kv w x = (case dataPtr x of None \<Rightarrow> 0 | Some p \<Rightarrow> length (pair_list (cells w ! p)))"

definition empty_kv :: "('k, 'v) world \<Rightarrow> kvfifo \<Rightarrow> bool" where
  "empty_kv w x = (case dataPtr x of None \<Rightarrow> True | Some p \<Rightarrow> pair_list (cells w ! p) = [])"

definition count :: "('k, 'v) world \<Rightarrow> kvfifo \<Rightarrow> 'k \<Rightarrow> nat" where
  "count w x k =
     (case dataPtr x of
        None \<Rightarrow> 0
      | Some p \<Rightarrow>
          (case map_find k (iterator_list_map (cells w ! p)) of
             None \<Rightarrow> 0
           | Some b \<Rightarrow> length b))"

definition k_range :: "('k, 'v) world \<Rightarrow> kvfifo \<Rightarrow> 'k list" where
  "k_range w x =
     (case dataPtr x of None \<Rightarrow> [] | Some p \<Rightarrow> map fst (iterator_list_map (cells w ! p)))"

text \<open>The queue of an object as a caller can read it entry by entry: keys and values, front
  first.\<close>

definition entries :: "('k, 'v) container_t \<Rightarrow> ('k \<times> 'v) list" where
  "entries c = map snd (pair_list c)"

definition queue_of :: "('k, 'v) world \<Rightarrow> kvfifo \<Rightarrow> ('k \<times> 'v) list" where
  "queue_of w x = (case dataPtr x of None \<Rightarrow> [] | Some p \<Rightarrow> entries (cells w ! p))"

section \<open>Construction, assignment, destruction\<close>

text \<open>The default constructor, line 20.\<close>

definition ctor ::
  "(alloc_site \<Rightarrow> bool) \<Rightarrow> ('k, 'v) world \<Rightarrow> (error + nat) \<times> ('k, 'v) world" where
  "ctor oom w =
     (case make_shared_empty oom w of
        Inl e \<Rightarrow> (Inl e, w)
      | Inr (q, w1) \<Rightarrow> new_obj \<lparr>unshareable = False, dataPtr = Some q\<rparr> w1)"

text \<open>The copy constructor, lines 22-28.  The new object's flag takes its default member
  initialiser.\<close>

definition copy_ctor ::
  "nat \<Rightarrow> (alloc_site \<Rightarrow> bool) \<Rightarrow> ('k::linorder, 'v) world
     \<Rightarrow> (error + nat) \<times> ('k, 'v) world" where
  "copy_ctor other oom w =
     (case self other w of
        Inl e \<Rightarrow> (Inl e, w)
      | Inr ob \<Rightarrow>
          if \<not> unshareable ob then new_obj \<lparr>unshareable = False, dataPtr = dataPtr ob\<rparr> w
          else
            (case dataPtr ob of
               None \<Rightarrow> (Inl undefined_behaviour, w)
             | Some p \<Rightarrow>
                 (case make_shared_copy p oom w of
                    Inl e \<Rightarrow> (Inl e, w)
                  | Inr (q, w1) \<Rightarrow> new_obj \<lparr>unshareable = False, dataPtr = Some q\<rparr> w1)))"

text \<open>The defaulted move constructor, line 30: the flag is copied, the pointer is moved and
  the source keeps a null pointer.\<close>

definition move_ctor ::
  "nat \<Rightarrow> ('k, 'v) world \<Rightarrow> (error + nat) \<times> ('k, 'v) world" where
  "move_ctor other w =
     (case self other w of
        Inl e \<Rightarrow> (Inl e, w)
      | Inr ob \<Rightarrow>
          new_obj \<lparr>unshareable = unshareable ob, dataPtr = dataPtr ob\<rparr>
            (set_obj other (ob\<lparr>dataPtr := None\<rparr>) w))"

text \<open>The defaulted destructor, line 32.\<close>

definition dtor :: "nat \<Rightarrow> ('k, 'v) world \<Rightarrow> (error + unit) \<times> ('k, 'v) world" where
  "dtor i w =
     (case self i w of
        Inl e \<Rightarrow> (Inl e, w)
      | Inr x \<Rightarrow> (Inr (), w\<lparr>objs := (objs w)[i := None]\<rparr>))"

text \<open>\<^verbatim>\<open>operator=\<close>, lines 34-44, on its by-value parameter \<^verbatim>\<open>other\<close>.\<close>

definition operator_assign ::
  "nat \<Rightarrow> nat \<Rightarrow> (alloc_site \<Rightarrow> bool) \<Rightarrow> ('k::linorder, 'v) world
     \<Rightarrow> (error + unit) \<times> ('k, 'v) world" where
  "operator_assign this other oom w =
     (case self this w of
        Inl e \<Rightarrow> (Inl e, w)
      | Inr x \<Rightarrow>
          (case self other w of
             Inl e \<Rightarrow> (Inl e, w)
           | Inr ob \<Rightarrow>
               if \<not> unshareable ob
               then (Inr (), set_obj this \<lparr>unshareable = False, dataPtr = dataPtr ob\<rparr> w)
               else
                 (case dataPtr ob of
                    None \<Rightarrow> (Inl undefined_behaviour, w)
                  | Some p \<Rightarrow>
                      (case make_shared_copy p oom w of
                         Inl e \<Rightarrow> (Inl e, w)
                       | Inr (q, w1) \<Rightarrow>
                           (Inr (), set_obj this \<lparr>unshareable = False, dataPtr = Some q\<rparr> w1)))))"

text \<open>The statement \<^verbatim>\<open>a = b;\<close> on a live object \<^verbatim>\<open>a\<close>: the parameter is
  copy-constructed from \<^verbatim>\<open>b\<close>, the operator runs, the parameter is destroyed.
  \<^verbatim>\<open>a = std::move(b);\<close> move-constructs it.\<close>

definition copy_assign ::
  "nat \<Rightarrow> nat \<Rightarrow> (alloc_site \<Rightarrow> bool) \<Rightarrow> ('k::linorder, 'v) world
     \<Rightarrow> (error + unit) \<times> ('k, 'v) world" where
  "copy_assign this src oom w =
     (case self this w of
        Inl e \<Rightarrow> (Inl e, w)
      | Inr x \<Rightarrow>
          (case copy_ctor src oom w of
             (Inl e, w1) \<Rightarrow> (Inl e, w1)
           | (Inr t, w1) \<Rightarrow>
               (case operator_assign this t oom w1 of
                  (r, w2) \<Rightarrow> (r, snd (dtor t w2)))))"

definition move_assign ::
  "nat \<Rightarrow> nat \<Rightarrow> (alloc_site \<Rightarrow> bool) \<Rightarrow> ('k::linorder, 'v) world
     \<Rightarrow> (error + unit) \<times> ('k, 'v) world" where
  "move_assign this src oom w =
     (case self this w of
        Inl e \<Rightarrow> (Inl e, w)
      | Inr x \<Rightarrow>
          (case move_ctor src w of
             (Inl e, w1) \<Rightarrow> (Inl e, w1)
           | (Inr t, w1) \<Rightarrow>
               (case operator_assign this t oom w1 of
                  (r, w2) \<Rightarrow> (r, snd (dtor t w2)))))"

section \<open>The mutators\<close>

definition void_result ::
  "(error + 'r \<times> nat) \<times> ('k, 'v) world \<Rightarrow> (error + unit) \<times> ('k, 'v) world" where
  "void_result r = (case r of (Inl e, w) \<Rightarrow> (Inl e, w) | (Inr a, w) \<Rightarrow> (Inr (), w))"

text \<open>\<^verbatim>\<open>push\<close>, lines 46-72.\<close>

definition push ::
  "'k::linorder \<Rightarrow> 'v \<Rightarrow> nat \<Rightarrow> (alloc_site \<Rightarrow> bool) \<Rightarrow> ('k, 'v) world
     \<Rightarrow> (error + unit) \<times> ('k, 'v) world" where
  "push k v i oom w =
     (case self i w of
        Inl e \<Rightarrow> (Inl e, w)
      | Inr x \<Rightarrow>
          (case (case dataPtr x of
                   None \<Rightarrow>
                     (case make_shared_empty oom w of
                        Inl e \<Rightarrow> Inl e
                      | Inr (q, w1) \<Rightarrow>
                          let x1 = x\<lparr>dataPtr := Some q\<rparr> in Inr (x1, set_obj i x1 w1))
                 | Some p \<Rightarrow> Inr (x, w)) of
             Inl e \<Rightarrow> (Inl e, w)
           | Inr (x0, w0) \<Rightarrow> void_result (guarded_call False (push_body k v oom) i x0 oom w0)))"

text \<open>\<^verbatim>\<open>pop()\<close>, lines 74-92.\<close>

definition pop ::
  "nat \<Rightarrow> (alloc_site \<Rightarrow> bool) \<Rightarrow> ('k::linorder, 'v) world
     \<Rightarrow> (error + unit) \<times> ('k, 'v) world" where
  "pop i oom w =
     (case self i w of
        Inl e \<Rightarrow> (Inl e, w)
      | Inr x \<Rightarrow>
          if empty_kv w x then (Inl EmptyCollection, w)
          else void_result (guarded_call False pop_body i x oom w))"

text \<open>\<^verbatim>\<open>pop(K const &)\<close>, lines 94-116.\<close>

definition pop_key ::
  "'k::linorder \<Rightarrow> nat \<Rightarrow> (alloc_site \<Rightarrow> bool) \<Rightarrow> ('k, 'v) world
     \<Rightarrow> (error + unit) \<times> ('k, 'v) world" where
  "pop_key k i oom w =
     (case self i w of
        Inl e \<Rightarrow> (Inl e, w)
      | Inr x \<Rightarrow>
          if empty_kv w x then (Inl KeyNotFound, w)
          else void_result (guarded_call False (pop_key_body k) i x oom w))"

text \<open>\<^verbatim>\<open>move_to_back\<close>, lines 118-137.\<close>

definition move_to_back ::
  "'k::linorder \<Rightarrow> nat \<Rightarrow> (alloc_site \<Rightarrow> bool) \<Rightarrow> ('k, 'v) world
     \<Rightarrow> (error + unit) \<times> ('k, 'v) world" where
  "move_to_back k i oom w =
     (case self i w of
        Inl e \<Rightarrow> (Inl e, w)
      | Inr x \<Rightarrow>
          if empty_kv w x then (Inl KeyNotFound, w)
          else void_result (guarded_call False (move_to_back_body k) i x oom w))"

text \<open>\<^verbatim>\<open>clear\<close>, lines 274-285.\<close>

definition clear ::
  "nat \<Rightarrow> (alloc_site \<Rightarrow> bool) \<Rightarrow> ('k::linorder, 'v) world
     \<Rightarrow> (error + unit) \<times> ('k, 'v) world" where
  "clear i oom w =
     (case self i w of
        Inl e \<Rightarrow> (Inl e, w)
      | Inr x \<Rightarrow>
          if dataPtr x = None then (Inr (), w)
          else void_result (guarded_call False clear_body i x oom w))"

section \<open>The accessors\<close>

text \<open>The const overloads (lines 139-145, 159-165, 180-192, 212-224) read and leave the world
  alone.\<close>

definition read_cell ::
  "(('k, 'v) container_t \<Rightarrow> error + (nat \<times> 'k \<times> 'v)) \<Rightarrow> ('k, 'v) world \<Rightarrow> kvfifo
     \<Rightarrow> error + ('k \<times> 'v)" where
  "read_cell body w x =
     (case dataPtr x of
        None \<Rightarrow> Inl undefined_behaviour
      | Some p \<Rightarrow> (case body (cells w ! p) of Inl e \<Rightarrow> Inl e | Inr e \<Rightarrow> Inr (snd e)))"

definition front_const :: "nat \<Rightarrow> ('k, 'v) world \<Rightarrow> error + ('k \<times> 'v)" where
  "front_const i w =
     (case self i w of
        Inl e \<Rightarrow> Inl e
      | Inr x \<Rightarrow> if empty_kv w x then Inl EmptyCollection else read_cell front_body w x)"

definition back_const :: "nat \<Rightarrow> ('k, 'v) world \<Rightarrow> error + ('k \<times> 'v)" where
  "back_const i w =
     (case self i w of
        Inl e \<Rightarrow> Inl e
      | Inr x \<Rightarrow> if empty_kv w x then Inl EmptyCollection else read_cell back_body w x)"

definition first_const :: "'k \<Rightarrow> nat \<Rightarrow> ('k, 'v) world \<Rightarrow> error + ('k \<times> 'v)" where
  "first_const key i w =
     (case self i w of
        Inl e \<Rightarrow> Inl e
      | Inr x \<Rightarrow> if empty_kv w x then Inl KeyNotFound else read_cell (first_body key) w x)"

definition last_const :: "'k \<Rightarrow> nat \<Rightarrow> ('k, 'v) world \<Rightarrow> error + ('k \<times> 'v)" where
  "last_const key i w =
     (case self i w of
        Inl e \<Rightarrow> Inl e
      | Inr x \<Rightarrow> if empty_kv w x then Inl KeyNotFound else read_cell (last_body key) w x)"

text \<open>The non-const overloads (lines 147-157, 167-178, 194-210, 226-242).  The result is the
  node read and the cell it lives in: together they are the \<^verbatim>\<open>V &\<close> handed out.\<close>

definition front ::
  "nat \<Rightarrow> (alloc_site \<Rightarrow> bool) \<Rightarrow> ('k::linorder, 'v) world
     \<Rightarrow> (error + (nat \<times> 'k \<times> 'v) \<times> nat) \<times> ('k, 'v) world" where
  "front i oom w =
     (case self i w of
        Inl e \<Rightarrow> (Inl e, w)
      | Inr x \<Rightarrow>
          if empty_kv w x then (Inl EmptyCollection, w)
          else guarded_call True (\<lambda>c. (front_body c, c)) i x oom w)"

definition back_kv ::
  "nat \<Rightarrow> (alloc_site \<Rightarrow> bool) \<Rightarrow> ('k::linorder, 'v) world
     \<Rightarrow> (error + (nat \<times> 'k \<times> 'v) \<times> nat) \<times> ('k, 'v) world" where
  "back_kv i oom w =
     (case self i w of
        Inl e \<Rightarrow> (Inl e, w)
      | Inr x \<Rightarrow>
          if empty_kv w x then (Inl EmptyCollection, w)
          else guarded_call True (\<lambda>c. (back_body c, c)) i x oom w)"

definition first ::
  "'k::linorder \<Rightarrow> nat \<Rightarrow> (alloc_site \<Rightarrow> bool) \<Rightarrow> ('k, 'v) world
     \<Rightarrow> (error + (nat \<times> 'k \<times> 'v) \<times> nat) \<times> ('k, 'v) world" where
  "first key i oom w =
     (case self i w of
        Inl e \<Rightarrow> (Inl e, w)
      | Inr x \<Rightarrow>
          if empty_kv w x then (Inl KeyNotFound, w)
          else guarded_call True (\<lambda>c. (first_body key c, c)) i x oom w)"

definition last_kv ::
  "'k::linorder \<Rightarrow> nat \<Rightarrow> (alloc_site \<Rightarrow> bool) \<Rightarrow> ('k, 'v) world
     \<Rightarrow> (error + (nat \<times> 'k \<times> 'v) \<times> nat) \<times> ('k, 'v) world" where
  "last_kv key i oom w =
     (case self i w of
        Inl e \<Rightarrow> (Inl e, w)
      | Inr x \<Rightarrow>
          if empty_kv w x then (Inl KeyNotFound, w)
          else guarded_call True (\<lambda>c. (last_body key c, c)) i x oom w)"

text \<open>The caller assigning through the \<^verbatim>\<open>V &\<close> of a mutable accessor: the value of node
  \<open>n\<close> of cell \<open>p\<close> is overwritten in place.\<close>

definition write_node :: "nat \<Rightarrow> 'v \<Rightarrow> ('k, 'v) container_t \<Rightarrow> ('k, 'v) container_t" where
  "write_node n v c =
     c\<lparr>pair_list := map (\<lambda>e. if fst e = n then (fst e, fst (snd e), v) else e) (pair_list c)\<rparr>"

definition write_ref :: "nat \<Rightarrow> nat \<Rightarrow> 'v \<Rightarrow> ('k, 'v) world \<Rightarrow> ('k, 'v) world" where
  "write_ref p n v w = set_cell p (write_node n v (cells w ! p)) w"

definition and_write ::
  "'v option \<Rightarrow> (error + (nat \<times> 'k \<times> 'v) \<times> nat) \<times> ('k, 'v) world
     \<Rightarrow> (error + unit) \<times> ('k, 'v) world" where
  "and_write vo r =
     (case r of
        (Inl e, w) \<Rightarrow> (Inl e, w)
      | (Inr (e, p), w) \<Rightarrow>
          (case vo of None \<Rightarrow> (Inr (), w) | Some v \<Rightarrow> (Inr (), write_ref p (fst e) v w)))"

section \<open>Programs over several objects\<close>

text \<open>
  One statement of a client program.  Objects are named by their index in the table.  The
  mutable accessors come with the value the client stores through the returned reference at
  once, if any.
\<close>

datatype ('k, 'v) op =
    Ctor
  | CopyCtor nat
  | MoveCtor nat
  | CopyAssign nat nat
  | MoveAssign nat nat
  | Dtor nat
  | Push nat 'k 'v
  | Pop nat
  | PopKey nat 'k
  | MoveToBack nat 'k
  | Clear nat
  | Front nat "'v option"
  | Back nat "'v option"
  | First nat 'k "'v option"
  | Last nat 'k "'v option"

definition outcome :: "(error + 'r) \<times> ('k, 'v) world \<Rightarrow> error option \<times> ('k, 'v) world" where
  "outcome r = (case r of (Inl e, w) \<Rightarrow> (Some e, w) | (Inr a, w) \<Rightarrow> (None, w))"

fun exec ::
  "(alloc_site \<Rightarrow> bool) \<Rightarrow> ('k::linorder, 'v) op \<Rightarrow> ('k, 'v) world
     \<Rightarrow> error option \<times> ('k, 'v) world" where
  "exec oom Ctor w = outcome (ctor oom w)"
| "exec oom (CopyCtor j) w = outcome (copy_ctor j oom w)"
| "exec oom (MoveCtor j) w = outcome (move_ctor j w)"
| "exec oom (CopyAssign i j) w = outcome (copy_assign i j oom w)"
| "exec oom (MoveAssign i j) w = outcome (move_assign i j oom w)"
| "exec oom (Dtor i) w = outcome (dtor i w)"
| "exec oom (Push i k v) w = outcome (push k v i oom w)"
| "exec oom (Pop i) w = outcome (pop i oom w)"
| "exec oom (PopKey i k) w = outcome (pop_key k i oom w)"
| "exec oom (MoveToBack i k) w = outcome (move_to_back k i oom w)"
| "exec oom (Clear i) w = outcome (clear i oom w)"
| "exec oom (Front i vo) w = outcome (and_write vo (front i oom w))"
| "exec oom (Back i vo) w = outcome (and_write vo (back_kv i oom w))"
| "exec oom (First i k vo) w = outcome (and_write vo (first k i oom w))"
| "exec oom (Last i k vo) w = outcome (and_write vo (last_kv k i oom w))"

text \<open>
  A program is a list of statements, each with the allocation sites that fail while it runs.
  The caller catches every exception and goes on; a statement without defined behaviour ends
  the run with \<open>None\<close>.
\<close>

fun run ::
  "(alloc_site list \<times> ('k::linorder, 'v) op) list \<Rightarrow> ('k, 'v) world
     \<Rightarrow> ('k, 'v) world option" where
  "run [] w = Some w"
| "run (s # prog) w =
     (case exec (\<lambda>a. a \<in> set (fst s)) (snd s) w of
        (Some undefined_behaviour, w') \<Rightarrow> None
      | (r, w') \<Rightarrow> run prog w')"

text \<open>What a caller can observe of one object: its size, the count of every key, its queue
  read front to back, and its keys in iteration order.\<close>

definition observe ::
  "('k, 'v) world \<Rightarrow> kvfifo \<Rightarrow> nat \<times> ('k \<Rightarrow> nat) \<times> ('k \<times> 'v) list \<times> 'k list" where
  "observe w x = (size_kv w x, count w x, queue_of w x, k_range w x)"

text \<open>
  Two client loops: inserting a list of entries into one object, and reading the front and
  removing it \<open>n\<close> times (through the const \<^verbatim>\<open>front\<close> or, with \<open>mut\<close>, the
  mutable one).  No allocation fails in them; a call that throws ends the loop with \<open>None\<close>.
\<close>

fun push_all ::
  "('k::linorder \<times> 'v) list \<Rightarrow> nat \<Rightarrow> ('k, 'v) world \<Rightarrow> ('k, 'v) world option" where
  "push_all [] i w = Some w"
| "push_all (kv # kvs) i w =
     (case push (fst kv) (snd kv) i no_oom w of
        (Inl e, w') \<Rightarrow> None
      | (Inr u, w') \<Rightarrow> push_all kvs i w')"

definition peek_front ::
  "bool \<Rightarrow> nat \<Rightarrow> ('k::linorder, 'v) world \<Rightarrow> (error + ('k \<times> 'v)) \<times> ('k, 'v) world" where
  "peek_front mut i w =
     (if mut then
        (case front i no_oom w of
           (Inl e, w') \<Rightarrow> (Inl e, w')
         | (Inr (e, p), w') \<Rightarrow> (Inr (snd e), w'))
      else (front_const i w, w))"

fun drain ::
  "bool \<Rightarrow> nat \<Rightarrow> nat \<Rightarrow> ('k::linorder, 'v) world
     \<Rightarrow> (('k \<times> 'v) list \<times> ('k, 'v) world) option" where
  "drain mut 0 i w = Some ([], w)"
| "drain mut (Suc n) i w =
     (case peek_front mut i w of
        (Inl e, w1) \<Rightarrow> None
      | (Inr kv, w1) \<Rightarrow>
          (case pop i no_oom w1 of
             (Inl e, w2) \<Rightarrow> None
           | (Inr u, w2) \<Rightarrow>
               (case drain mut n i w2 of
                  None \<Rightarrow> None
                | Some (kvs, w3) \<Rightarrow> Some (kv # kvs, w3))))"

section \<open>References kept by the caller\<close>

text \<open>
  A mutable accessor returns a \<^verbatim>\<open>V &\<close> into a node of the cell its object points at, and the
  caller may keep it and assign through it later.  A reference is the object that handed it out,
  the cell and the node.
\<close>

record reference =
  ref_owner :: nat
  ref_cell :: nat
  ref_node :: nat

definition handed_out ::
  "nat \<Rightarrow> (error + (nat \<times> 'k \<times> 'v) \<times> nat) \<times> ('k, 'v) world \<Rightarrow> reference list" where
  "handed_out i r =
     (case fst r of
        Inl e \<Rightarrow> []
      | Inr (e, p) \<Rightarrow> [\<lparr>ref_owner = i, ref_cell = p, ref_node = fst e\<rparr>])"

fun references ::
  "(alloc_site \<Rightarrow> bool) \<Rightarrow> ('k::linorder, 'v) op \<Rightarrow> ('k, 'v) world \<Rightarrow> reference list" where
  "references oom (Front i vo) w = handed_out i (front i oom w)"
| "references oom (Back i vo) w = handed_out i (back_kv i oom w)"
| "references oom (First i k vo) w = handed_out i (first k i oom w)"
| "references oom (Last i k vo) w = handed_out i (last_kv k i oom w)"
| "references oom other w = []"

text \<open>
  \<^verbatim>\<open>std::list\<close> keeps a reference to an element valid until the element is erased or the list
  is destroyed, and the list is destroyed with its cell, when no \<^verbatim>\<open>shared_ptr\<close> points at it
  any more.  From then on the reference dangles.
\<close>

definition dangling :: "('k, 'v) world \<Rightarrow> reference \<Rightarrow> bool" where
  "dangling w r \<longleftrightarrow>
     filter (points_at (ref_cell r)) (objs w) = [] \<or>
     ref_node r \<notin> set (map fst (pair_list (cells w ! ref_cell r)))"

definition sweep :: "('k, 'v) world \<Rightarrow> reference option list \<Rightarrow> reference option list" where
  "sweep w rs =
     map (\<lambda>ro. case ro of None \<Rightarrow> None | Some r \<Rightarrow> if dangling w r then None else Some r) rs"

text \<open>
  A statement of a client that keeps every reference it is handed: a call, with the allocation
  sites that fail while it runs, or an assignment through the \<open>n\<close>-th reference received so
  far.  The state is the world and the references, \<open>None\<close> for one that dangles.  Assigning
  through a dangling reference, or through one never received, has no defined behaviour.
\<close>

datatype ('k, 'v) stmt =
    Call "alloc_site list" "('k, 'v) op"
  | Store nat 'v

fun perform ::
  "('k::linorder, 'v) stmt \<Rightarrow> ('k, 'v) world \<times> reference option list
     \<Rightarrow> error option \<times> ('k, 'v) world \<times> reference option list" where
  "perform (Call sites op) (w, rs) =
     (case exec (\<lambda>a. a \<in> set sites) op w of
        (r, w') \<Rightarrow>
          (r, w', sweep w' (rs @ map Some (references (\<lambda>a. a \<in> set sites) op w))))"
| "perform (Store n v) (w, rs) =
     (if n < length rs then
        (case rs ! n of
           None \<Rightarrow> (Some undefined_behaviour, w, rs)
         | Some r \<Rightarrow> (None, write_ref (ref_cell r) (ref_node r) v w, rs))
      else (Some undefined_behaviour, w, rs))"

fun runr ::
  "('k::linorder, 'v) stmt list \<Rightarrow> ('k, 'v) world \<times> reference option list
     \<Rightarrow> (('k, 'v) world \<times> reference option list) option" where
  "runr [] st = Some st"
| "runr (s # prog) st =
     (case perform s st of
        (Some undefined_behaviour, st') \<Rightarrow> None
      | (r, st') \<Rightarrow> runr prog st')"

section \<open>Invariants and the abstract view\<close>

text \<open>
  The definitions below do not model code.  They state the representation invariant of a
  container (I1 to I3), the invariant of a world of objects (I4 and well-formed pointers), and
  the view of a world in which every object is just its flag and its queue.
\<close>

definition nodes_of :: "'k \<Rightarrow> ('k, 'v) k_v_queue_t \<Rightarrow> nat list" where
  "nodes_of k l = map fst (filter (\<lambda>e. fst (snd e) = k) l)"

definition cinv :: "('k::linorder, 'v) container_t \<Rightarrow> bool" where
  "cinv c \<longleftrightarrow>
     distinct (map fst (pair_list c)) \<and>
     sorted_wrt (<) (map fst (iterator_list_map c)) \<and>
     (\<forall>k. map_find k (iterator_list_map c) =
            (if nodes_of k (pair_list c) = [] then None else Some (nodes_of k (pair_list c))))"

fun remove_first_key :: "'k \<Rightarrow> ('k \<times> 'v) list \<Rightarrow> ('k \<times> 'v) list" where
  "remove_first_key k [] = []"
| "remove_first_key k (e # es) = (if fst e = k then es else e # remove_first_key k es)"

definition with_key :: "'k \<Rightarrow> ('k \<times> 'v) list \<Rightarrow> ('k \<times> 'v) list" where
  "with_key k es = filter (\<lambda>e. fst e = k) es"

definition without_key :: "'k \<Rightarrow> ('k \<times> 'v) list \<Rightarrow> ('k \<times> 'v) list" where
  "without_key k es = filter (\<lambda>e. fst e \<noteq> k) es"

definition live :: "('k, 'v) world \<Rightarrow> nat \<Rightarrow> kvfifo \<Rightarrow> bool" where
  "live w i x \<longleftrightarrow> i < length (objs w) \<and> objs w ! i = Some x"

definition winv :: "('k::linorder, 'v) world \<Rightarrow> bool" where
  "winv w \<longleftrightarrow>
     (\<forall>i x p. live w i x \<longrightarrow> dataPtr x = Some p \<longrightarrow> p < length (cells w)) \<and>
     (\<forall>i x p j y. live w i x \<longrightarrow> unshareable x \<longrightarrow> dataPtr x = Some p \<longrightarrow>
                   live w j y \<longrightarrow> j \<noteq> i \<longrightarrow> dataPtr y \<noteq> Some p) \<and>
     (\<forall>p<length (cells w). cinv (cells w ! p))"

definition snap_obj :: "('k, 'v) world \<Rightarrow> kvfifo \<Rightarrow> bool \<times> ('k \<times> 'v) list" where
  "snap_obj w x = (unshareable x, queue_of w x)"

definition snapshot :: "('k, 'v) world \<Rightarrow> (bool \<times> ('k \<times> 'v) list) option list" where
  "snapshot w = map (map_option (snap_obj w)) (objs w)"

definition staged ::
  "('k::linorder, 'v) world \<Rightarrow> nat \<Rightarrow> kvfifo \<Rightarrow> bool \<Rightarrow> nat \<Rightarrow> ('k, 'v) world \<Rightarrow> bool" where
  "staged w i x mark q w1 \<longleftrightarrow>
     objs w1 = (objs w)[i := Some \<lparr>unshareable = mark, dataPtr = Some q\<rparr>] \<and>
     q < length (cells w1) \<and>
     (\<forall>j y. live w j y \<longrightarrow> j \<noteq> i \<longrightarrow> dataPtr y \<noteq> Some q) \<and>
     length (cells w) \<le> length (cells w1) \<and>
     (\<forall>p<length (cells w). p \<noteq> q \<longrightarrow> cells w1 ! p = cells w ! p) \<and>
     (\<forall>p<length (cells w1). cinv (cells w1 ! p)) \<and>
     entries (cells w1 ! q) = queue_of w x \<and>
     (\<forall>p. dataPtr x = Some p \<longrightarrow> p \<noteq> q \<longrightarrow> cells w1 ! p = cells w ! p)"

definition finish ::
  "copy_guard_t \<Rightarrow> nat \<Rightarrow> ('k, 'v) world \<Rightarrow> (error + 'r) \<times> ('k, 'v) container_t
     \<Rightarrow> (error + 'r \<times> nat) \<times> ('k, 'v) world" where
  "finish g q w1 rc =
     (case rc of
        (Inl e, c) \<Rightarrow> (Inl e, guard_rollback g (set_cell q c w1))
      | (Inr r, c) \<Rightarrow> (Inr (r, q), set_cell q c w1))"

definition unchanged :: "('k::linorder, 'v) world \<Rightarrow> ('k, 'v) world \<Rightarrow> bool" where
  "unchanged w w' \<longleftrightarrow> winv w' \<and> snapshot w' = snapshot w"

definition updated ::
  "('k::linorder, 'v) world \<Rightarrow> nat \<Rightarrow> bool \<Rightarrow> ('k \<times> 'v) list \<Rightarrow> ('k, 'v) world \<Rightarrow> bool" where
  "updated w i mark es w' \<longleftrightarrow>
     winv w' \<and> snapshot w' = (snapshot w)[i := Some (mark, es)] \<and>
     (\<exists>q. live w' i \<lparr>unshareable = mark, dataPtr = Some q\<rparr>)"

fun target :: "('k, 'v) op \<Rightarrow> nat option" where
  "target (Push i k v) = Some i"
| "target (Pop i) = Some i"
| "target (PopKey i k) = Some i"
| "target (MoveToBack i k) = Some i"
| "target (Clear i) = Some i"
| "target (Front i vo) = Some i"
| "target (Back i vo) = Some i"
| "target (First i k vo) = Some i"
| "target (Last i k vo) = Some i"
| "target other = None"

definition fits :: "('k::linorder, 'v) world \<Rightarrow> nat \<Rightarrow> nat \<Rightarrow> kvfifo option \<Rightarrow> bool" where
  "fits w n i ob \<longleftrightarrow>
     (\<forall>z q. ob = Some z \<longrightarrow> dataPtr z = Some q \<longrightarrow>
        q < n \<and>
        (\<forall>j y. live w j y \<longrightarrow> j \<noteq> i \<longrightarrow> dataPtr y = Some q \<longrightarrow>
           \<not> unshareable y \<and> \<not> unshareable z))"

definition step_ok ::
  "('k::linorder, 'v) world \<Rightarrow> nat \<Rightarrow> (alloc_site \<Rightarrow> bool) \<Rightarrow> error option \<Rightarrow> ('k, 'v) world \<Rightarrow> bool" where
  "step_ok w i oom r w' \<longleftrightarrow>
     winv w' \<and> (\<exists>ob. snapshot w' = (snapshot w)[i := ob]) \<and>
     (\<forall>e. r = Some e \<longrightarrow>
        snapshot w' = snapshot w \<and> e \<noteq> undefined_behaviour \<and> (e = bad_alloc \<longrightarrow> (\<exists>s. oom s)))"

definition missing :: "('k, 'v) world \<Rightarrow> kvfifo \<Rightarrow> 'k \<Rightarrow> bool" where
  "missing w x k \<longleftrightarrow> empty_kv w x \<or> count w x k = 0"

definition key_error ::
  "('k::linorder, 'v) world \<Rightarrow> nat \<Rightarrow> kvfifo \<Rightarrow> 'k \<Rightarrow> (alloc_site \<Rightarrow> bool)
     \<Rightarrow> (error + 'r) \<times> ('k, 'v) world \<Rightarrow> bool" where
  "key_error w i x k oom r \<longleftrightarrow>
     (fst r = Inl KeyNotFound \<longrightarrow> missing w x k) \<and>
     (missing w x k \<longrightarrow>
        (fst r = Inl KeyNotFound \<or> fst r = Inl bad_alloc \<and> oom AtClone) \<and>
        live (snd r) i x \<and> observe (snd r) x = observe w x) \<and>
     (\<not> oom AtClone \<longrightarrow> (fst r = Inl KeyNotFound \<longleftrightarrow> missing w x k)) \<and>
     (empty_kv w x \<longrightarrow> r = (Inl KeyNotFound, w))"

fun accessor :: "('k, 'v) op \<Rightarrow> bool" where
  "accessor (Front i vo) = True"
| "accessor (Back i vo) = True"
| "accessor (First i k vo) = True"
| "accessor (Last i k vo) = True"
| "accessor other = False"

text \<open>
  The statements that are not about object \<open>u\<close>.  A call is not when it constructs an object,
  copies from any object, or moves from, assigns to, destroys or mutates another object than
  \<open>u\<close>.  An assignment through a kept reference is not when the reference is not among the
  first \<open>n0\<close> that the caller received (it was handed out later, by one of the calls above), or
  when it was handed out by another object than \<open>u\<close> and that object is still pinned on the
  cell the reference leads into.
\<close>

definition pins :: "('k, 'v) world \<Rightarrow> reference \<Rightarrow> bool" where
  "pins w r \<longleftrightarrow> live w (ref_owner r) \<lparr>unshareable = True, dataPtr = Some (ref_cell r)\<rparr>"

fun leaves_alone :: "nat \<Rightarrow> ('k, 'v) op \<Rightarrow> bool" where
  "leaves_alone u Ctor = True"
| "leaves_alone u (CopyCtor j) = True"
| "leaves_alone u (MoveCtor j) = (j \<noteq> u)"
| "leaves_alone u (CopyAssign t j) = (t \<noteq> u)"
| "leaves_alone u (MoveAssign t j) = (t \<noteq> u \<and> j \<noteq> u)"
| "leaves_alone u (Dtor j) = (j \<noteq> u)"
| "leaves_alone u op = (target op \<noteq> Some u)"

fun spares ::
  "nat \<Rightarrow> nat \<Rightarrow> ('k, 'v) stmt \<Rightarrow> ('k, 'v) world \<times> reference option list \<Rightarrow> bool" where
  "spares u n0 (Call sites op) st = leaves_alone u op"
| "spares u n0 (Store n v) (w, rs) =
     (n < length rs \<and>
      (case rs ! n of
         None \<Rightarrow> False
       | Some r \<Rightarrow> n0 \<le> n \<or> ref_owner r \<noteq> u \<and> pins w r))"

text \<open>A program all of whose statements are not about \<open>u\<close>, each in the state it runs in.\<close>

fun spared ::
  "nat \<Rightarrow> nat \<Rightarrow> ('k::linorder, 'v) stmt list \<Rightarrow> ('k, 'v) world \<times> reference option list
     \<Rightarrow> bool" where
  "spared u n0 [] st = True"
| "spared u n0 (s # prog) st = (spares u n0 s st \<and> spared u n0 prog (snd (perform s st)))"

lemma fresh_node_gt: "e \<in> set l \<Longrightarrow> fst e < fresh_node l"
  by (induction l) auto

lemma fresh_node_notin: "fresh_node l \<notin> fst ` set l"
  using fresh_node_gt by fastforce

lemma nodes_of_Nil [simp]: "nodes_of k [] = []"
  by (simp add: nodes_of_def)

lemma nodes_of_Cons:
  "nodes_of k (e # l) = (if fst (snd e) = k then fst e # nodes_of k l else nodes_of k l)"
  by (simp add: nodes_of_def)

lemma nodes_of_append: "nodes_of k (l @ l') = nodes_of k l @ nodes_of k l'"
  by (simp add: nodes_of_def)

lemma set_nodes_of: "set (nodes_of k l) = fst ` {e \<in> set l. fst (snd e) = k}"
  by (auto simp: nodes_of_def)

lemma nodes_of_subset: "set (nodes_of k l) \<subseteq> fst ` set l"
  by (auto simp: nodes_of_def)

lemma distinct_nodes_of: "distinct (map fst l) \<Longrightarrow> distinct (nodes_of k l)"
  by (simp add: nodes_of_def distinct_map_filter)

lemma length_nodes_of: "length (nodes_of k l) = length (filter (\<lambda>e. fst (snd e) = k) l)"
  by (simp add: nodes_of_def)

subsection \<open>The ordered map\<close>

lemma map_of_map_insert:
  "map_of m k = None \<Longrightarrow> map_of (map_insert k b m) = (map_of m)(k \<mapsto> b)"
  by (induction m) (auto simp: fun_eq_iff)

lemma set_fst_map_insert: "fst ` set (map_insert k b m) = insert k (fst ` set m)"
  by (induction k b m rule: map_insert.induct) auto

lemma sorted_map_insert:
  "sorted_wrt (<) (map fst m) \<Longrightarrow> sorted_wrt (<) (map fst (map_insert k b m))"
proof (induction m)
  case Nil
  then show ?case by simp
next
  case (Cons e m)
  obtain a x where e: "e = (a, x)" by (cases e)
  from Cons.prems have m: "sorted_wrt (<) (map fst m)" and a: "\<forall>y\<in>fst ` set m. a < y"
    by (auto simp: e)
  show ?case
  proof (cases "k < a")
    case True
    with Cons.prems a show ?thesis by (auto simp: e)
  next
    case False
    show ?thesis
    proof (cases "k = a")
      case True
      with Cons.prems show ?thesis by (simp add: e)
    next
      case neq: False
      with False have "a < k" by simp
      with a have "\<forall>y\<in>fst ` set (map_insert k b m). a < y"
        unfolding set_fst_map_insert by auto
      with Cons.IH [OF m] False neq show ?thesis by (simp add: e)
    qed
  qed
qed

lemma map_fst_map_update [simp]: "map fst (map_update k f m) = map fst m"
  by (induction m) (auto simp: map_update_def)

lemma map_of_map_update:
  "map_of (map_update k f m) k' = (if k' = k then map_option f (map_of m k) else map_of m k')"
  by (induction m) (auto simp: map_update_def)

lemma map_of_map_erase: "map_of (map_erase k m) k' = (if k' = k then None else map_of m k')"
  by (induction m) (auto simp: map_erase_def)

lemma sorted_map_erase:
  "sorted_wrt (<) (map fst m) \<Longrightarrow> sorted_wrt (<) (map fst (map_erase k m))"
  by (induction m) (auto simp: map_erase_def)

lemma cinv_distinct: "cinv c \<Longrightarrow> distinct (map fst (pair_list c))"
  by (simp add: cinv_def)

lemma cinv_sorted: "cinv c \<Longrightarrow> sorted_wrt (<) (map fst (iterator_list_map c))"
  by (simp add: cinv_def)

lemma cinv_find:
  "cinv c \<Longrightarrow> map_find k (iterator_list_map c) =
     (if nodes_of k (pair_list c) = [] then None else Some (nodes_of k (pair_list c)))"
  by (simp add: cinv_def)

lemma cinv_find_Some: "cinv c \<Longrightarrow> map_find k (iterator_list_map c) = Some b \<Longrightarrow>
  b = nodes_of k (pair_list c) \<and> b \<noteq> []"
  by (auto simp: cinv_find split: if_splits)

lemma cinv_find_None: "cinv c \<Longrightarrow> map_find k (iterator_list_map c) = None \<Longrightarrow>
  nodes_of k (pair_list c) = []"
  by (auto simp: cinv_find split: if_splits)

lemma cinvI:
  "distinct (map fst l) \<Longrightarrow> sorted_wrt (<) (map fst m) \<Longrightarrow>
   (\<And>k. map_of m k = (if nodes_of k l = [] then None else Some (nodes_of k l))) \<Longrightarrow>
   cinv \<lparr>iterator_list_map = m, pair_list = l\<rparr>"
  by (simp add: cinv_def map_find_def)

lemma cinv_empty: "cinv empty_container"
  by (simp add: cinv_def empty_container_def map_find_def)

lemma entries_empty [simp]: "entries empty_container = []"
  by (simp add: entries_def empty_container_def)

lemma container_eq:
  "(c::('k, 'v) container_t) = \<lparr>iterator_list_map = iterator_list_map c, pair_list = pair_list c\<rparr>"
  by simp

subsection \<open>push\<close>

lemma push_body_fail:
  "push_body k v oom c = (Inl e, c') \<Longrightarrow> e = bad_alloc \<and> c' = c"
  by (auto simp: push_body_def Let_def list_push_back_def split: if_splits option.splits)

lemma push_body_no_oom:
  "\<not> oom AtQueueNode \<Longrightarrow> \<not> oom AtBucketNode \<Longrightarrow> \<not> oom AtMapNode \<Longrightarrow>
   \<exists>c'. push_body k v oom c = (Inr (), c')"
  by (auto simp: push_body_def Let_def split: option.splits)

lemma push_body_ok:
  assumes "cinv c" and "push_body k v oom c = (Inr u, c')"
  shows "cinv c' \<and> entries c' = entries c @ [(k, v)]"
proof -
  let ?l = "pair_list c" and ?m = "iterator_list_map c"
  let ?n = "fresh_node ?l"
  let ?l' = "?l @ [(?n, k, v)]"
  have d: "distinct (map fst ?l')"
    using cinv_distinct [OF assms(1)] fresh_node_notin [of ?l] by simp
  have no: "\<And>k'. nodes_of k' ?l' = nodes_of k' ?l @ (if k' = k then [?n] else [])"
    by (simp add: nodes_of_append nodes_of_Cons)
  show ?thesis
  proof (cases "map_find k ?m")
    case None
    then have c': "c' = \<lparr>iterator_list_map = map_insert k [?n] ?m, pair_list = ?l'\<rparr>"
      using assms(2) by (auto simp: push_body_def Let_def list_push_back_def split: if_splits)
    have e: "nodes_of k ?l = []" using cinv_find_None [OF assms(1) None] .
    have "cinv \<lparr>iterator_list_map = map_insert k [?n] ?m, pair_list = ?l'\<rparr>"
    proof (rule cinvI [OF d])
      show "sorted_wrt (<) (map fst (map_insert k [?n] ?m))"
        using cinv_sorted [OF assms(1)] by (rule sorted_map_insert)
    next
      fix k'
      have "map_of (map_insert k [?n] ?m) = (map_of ?m)(k \<mapsto> [?n])"
        using None by (simp add: map_of_map_insert map_find_def)
      then show "map_of (map_insert k [?n] ?m) k' =
          (if nodes_of k' ?l' = [] then None else Some (nodes_of k' ?l'))"
        using cinv_find [OF assms(1), of k'] e by (simp add: no map_find_def)
    qed
    then show ?thesis by (simp add: c' entries_def)
  next
    case (Some b)
    then have c': "c' = \<lparr>iterator_list_map = map_update k (\<lambda>b. b @ [?n]) ?m, pair_list = ?l'\<rparr>"
      using assms(2) by (auto simp: push_body_def Let_def list_push_back_def split: if_splits)
    have b: "b = nodes_of k ?l" "b \<noteq> []" using cinv_find_Some [OF assms(1) Some] by auto
    have "cinv \<lparr>iterator_list_map = map_update k (\<lambda>b. b @ [?n]) ?m, pair_list = ?l'\<rparr>"
    proof (rule cinvI [OF d])
      show "sorted_wrt (<) (map fst (map_update k (\<lambda>b. b @ [?n]) ?m))"
        using cinv_sorted [OF assms(1)] by simp
    next
      fix k'
      show "map_of (map_update k (\<lambda>b. b @ [?n]) ?m) k' =
          (if nodes_of k' ?l' = [] then None else Some (nodes_of k' ?l'))"
        using cinv_find [OF assms(1), of k'] Some b
        by (auto simp: no map_of_map_update map_find_def)
    qed
    then show ?thesis by (simp add: c' entries_def)
  qed
qed

lemma nodes_of_Nil_iff: "nodes_of k l = [] \<longleftrightarrow> k \<notin> fst ` set (map snd l)"
  by (auto simp: nodes_of_def filter_empty_conv image_iff)

lemma nodes_of_entries: "nodes_of k (pair_list c) = [] \<longleftrightarrow> k \<notin> fst ` set (entries c)"
  by (simp add: nodes_of_Nil_iff entries_def)

lemma length_nodes_of_entries:
  "length (nodes_of k (pair_list c)) = length (with_key k (entries c))"
  by (simp add: nodes_of_def entries_def with_key_def filter_map comp_def)

lemma nodes_of_disjoint:
  "distinct (map fst l) \<Longrightarrow> k \<noteq> k' \<Longrightarrow> n \<in> set (nodes_of k l) \<Longrightarrow> n \<notin> set (nodes_of k' l)"
proof (induction l)
  case Nil
  then show ?case by simp
next
  case (Cons e l)
  then show ?case
    using nodes_of_subset [of k l] nodes_of_subset [of k' l]
    by (auto simp: nodes_of_Cons split: if_splits)
qed

lemma nodes_of_filter_id:
  "nodes_of k' (filter (\<lambda>e. fst e \<noteq> n) l) = filter (\<lambda>a. a \<noteq> n) (nodes_of k' l)"
  by (induction l) (auto simp: nodes_of_Cons)

lemma node_at_mem: "distinct (map fst l) \<Longrightarrow> e \<in> set l \<Longrightarrow> node_at (fst e) l = Some e"
  by (induction l) (auto simp: node_at_def image_iff)

lemma node_at_None: "n \<notin> fst ` set l \<Longrightarrow> node_at n l = None"
  by (induction l) (auto simp: node_at_def)

lemma node_at_Some: "node_at n l = Some e \<Longrightarrow> e \<in> set l \<and> fst e = n"
  by (induction l) (auto simp: node_at_def split: if_splits)

subsection \<open>pop\<close>

lemma pop_body_ok:
  assumes "cinv c" and "pair_list c \<noteq> []"
  shows "\<exists>c'. pop_body c = (Inr (), c') \<and> cinv c' \<and> entries c' = tl (entries c)"
proof -
  let ?m = "iterator_list_map c"
  obtain e rest where l: "pair_list c = e # rest" using assms(2) by (cases "pair_list c") auto
  let ?k = "fst (snd e)"
  have no: "nodes_of ?k (pair_list c) = fst e # nodes_of ?k rest"
    by (simp add: l nodes_of_Cons)
  have f: "map_find ?k ?m = Some (fst e # nodes_of ?k rest)"
    using cinv_find [OF assms(1), of ?k] no by simp
  let ?m1 = "map_update ?k tl ?m"
  let ?m2 = "if nodes_of ?k rest = [] then map_erase ?k ?m1 else ?m1"
  let ?c' = "\<lparr>iterator_list_map = ?m2, pair_list = rest\<rparr>"
  have r: "pop_body c = (Inr (), ?c')"
    using f by (simp add: pop_body_def l Let_def)
  have "cinv ?c'"
  proof (rule cinvI)
    show "distinct (map fst rest)" using cinv_distinct [OF assms(1)] by (simp add: l)
    show "sorted_wrt (<) (map fst ?m2)"
      using cinv_sorted [OF assms(1)] by (simp add: sorted_map_erase)
    fix k'
    have other: "k' \<noteq> ?k \<Longrightarrow> nodes_of k' (pair_list c) = nodes_of k' rest"
      by (auto simp: l nodes_of_Cons)
    show "map_of ?m2 k' = (if nodes_of k' rest = [] then None else Some (nodes_of k' rest))"
      using cinv_find [OF assms(1), of k'] f other
      by (auto simp: map_of_map_erase map_of_map_update map_find_def)
  qed
  then show ?thesis using r by (auto simp: entries_def l)
qed

subsection \<open>pop by key\<close>

lemma erase_first_of_key:
  "distinct (map fst l) \<Longrightarrow> nodes_of k l \<noteq> [] \<Longrightarrow>
   map snd (list_erase (hd (nodes_of k l)) l) = remove_first_key k (map snd l)"
proof (induction l)
  case Nil
  then show ?case by simp
next
  case (Cons e l)
  show ?case
  proof (cases "fst (snd e) = k")
    case True
    have "filter (\<lambda>a. fst a \<noteq> fst e) l = l"
      using Cons.prems(1) by (auto simp: filter_id_conv image_iff)
    with True show ?thesis by (simp add: nodes_of_Cons list_erase_def)
  next
    case False
    with Cons.prems have ne: "nodes_of k l \<noteq> []" by (simp add: nodes_of_Cons)
    then have "hd (nodes_of k l) \<in> set (nodes_of k l)" by simp
    then have "hd (nodes_of k l) \<in> fst ` set l" using nodes_of_subset [of k l] by blast
    with Cons.prems(1) have "fst e \<noteq> hd (nodes_of k l)" by force
    with False Cons.IH [OF _ ne] Cons.prems(1) show ?thesis
      by (simp add: nodes_of_Cons list_erase_def)
  qed
qed

lemma pop_key_body_absent:
  "cinv c \<Longrightarrow> k \<notin> fst ` set (entries c) \<Longrightarrow> pop_key_body k c = (Inl KeyNotFound, c)"
  using cinv_find [of c k] by (simp add: pop_key_body_def nodes_of_entries)

lemma pop_key_body_ok:
  assumes "cinv c" and "k \<in> fst ` set (entries c)"
  shows "\<exists>c'. pop_key_body k c = (Inr (), c') \<and> cinv c' \<and>
           entries c' = remove_first_key k (entries c) \<and>
           map_find k (iterator_list_map c') =
             (if tl (nodes_of k (pair_list c)) = [] then None
              else Some (tl (nodes_of k (pair_list c))))"
proof -
  let ?m = "iterator_list_map c" and ?l = "pair_list c"
  have ne: "nodes_of k ?l \<noteq> []" using assms(2) by (simp add: nodes_of_entries)
  then obtain n b' where b: "nodes_of k ?l = n # b'" by (cases "nodes_of k ?l") auto
  have f: "map_find k ?m = Some (n # b')" using cinv_find [OF assms(1), of k] b by simp
  have d: "distinct (map fst ?l)" by (rule cinv_distinct [OF assms(1)])
  have "n \<in> set (nodes_of k ?l)" by (simp add: b)
  then obtain e where e: "e \<in> set ?l" "fst e = n" using nodes_of_subset [of k ?l] by fastforce
  have na: "node_at n ?l = Some e" using node_at_mem [OF d e(1)] by (simp add: e(2))
  let ?l1 = "list_erase n ?l"
  let ?m1 = "map_update k tl ?m"
  let ?m2 = "if b' = [] then map_erase k ?m1 else ?m1"
  let ?c' = "\<lparr>iterator_list_map = ?m2, pair_list = ?l1\<rparr>"
  have r: "pop_key_body k c = (Inr (), ?c')"
    using f na by (simp add: pop_key_body_def Let_def)
  have nb: "n \<notin> set b'" using distinct_nodes_of [OF d, of k] by (simp add: b)
  have nk: "nodes_of k ?l1 = b'"
    using nb by (auto simp: list_erase_def nodes_of_filter_id b filter_id_conv)
  have no: "\<And>k'. k' \<noteq> k \<Longrightarrow> nodes_of k' ?l1 = nodes_of k' ?l"
  proof -
    fix k' assume "k' \<noteq> k"
    then have "n \<notin> set (nodes_of k' ?l)"
      using nodes_of_disjoint [OF d, of k k' n] by (simp add: b)
    then show "nodes_of k' ?l1 = nodes_of k' ?l"
      by (auto simp: list_erase_def nodes_of_filter_id filter_id_conv)
  qed
  have ci: "cinv ?c'"
  proof (rule cinvI)
    show "distinct (map fst ?l1)" using d by (simp add: list_erase_def distinct_map_filter)
    show "sorted_wrt (<) (map fst ?m2)"
      using cinv_sorted [OF assms(1)] by (simp add: sorted_map_erase)
    fix k'
    show "map_of ?m2 k' = (if nodes_of k' ?l1 = [] then None else Some (nodes_of k' ?l1))"
    proof (cases "k' = k")
      case True
      then show ?thesis using f by (simp add: nk map_of_map_erase map_of_map_update map_find_def)
    next
      case False
      then show ?thesis using cinv_find [OF assms(1), of k']
        by (simp add: no map_of_map_erase map_of_map_update map_find_def)
    qed
  qed
  have en: "entries ?c' = remove_first_key k (entries c)"
    using erase_first_of_key [OF d ne] by (simp add: entries_def b)
  have "map_find k ?m2 = (if b' = [] then None else Some b')"
    using cinv_find [OF ci, of k] by (simp add: nk)
  then show ?thesis using r ci en by (simp add: b)
qed

lemma pop_key_body_fail:
  "pop_key_body k c = (Inl e, c') \<Longrightarrow> c' = c"
  by (auto simp: pop_key_body_def Let_def split: option.splits list.splits)

subsection \<open>move to back\<close>

lemma node_at_append:
  "node_at n (xs @ ys) = (case node_at n xs of None \<Rightarrow> node_at n ys | Some e \<Rightarrow> Some e)"
  by (induction xs) (auto simp: node_at_def)

lemma node_at_erase: "n' \<noteq> n \<Longrightarrow> node_at n' (list_erase n l) = node_at n' l"
  by (induction l) (auto simp: node_at_def list_erase_def)

lemma nodes_of_filter_key:
  "nodes_of k' (filter (\<lambda>e. P (fst (snd e))) l) = (if P k' then nodes_of k' l else [])"
  by (induction l) (auto simp: nodes_of_Cons)

lemma splice_all_gen:
  "distinct (map fst l) \<Longrightarrow> distinct ns \<Longrightarrow> set ns \<subseteq> fst ` set l \<Longrightarrow>
   splice_all ns l =
     Inr (filter (\<lambda>e. fst e \<notin> set ns) l @ map (\<lambda>n. the (node_at n l)) ns)"
proof (induction ns arbitrary: l)
  case Nil
  then show ?case by simp
next
  case (Cons n ns)
  from Cons.prems obtain e where e: "e \<in> set l" "fst e = n" by auto
  have na: "node_at n l = Some e" using node_at_mem [OF Cons.prems(1) e(1)] by (simp add: e(2))
  let ?l1 = "list_erase n l @ [e]"
  have d1: "distinct (map fst ?l1)"
    using Cons.prems(1) e by (auto simp: list_erase_def distinct_map_filter)
  have d2: "distinct ns" and nn: "n \<notin> set ns" using Cons.prems(2) by auto
  have s1: "set ns \<subseteq> fst ` set ?l1"
  proof
    fix x assume x: "x \<in> set ns"
    then have "x \<noteq> n" using nn by auto
    moreover from x Cons.prems(3) obtain e' where "e' \<in> set l" "fst e' = x" by auto
    ultimately have "e' \<in> set (list_erase n l)" by (simp add: list_erase_def)
    then show "x \<in> fst ` set ?l1" using \<open>fst e' = x\<close> by force
  qed
  have lk: "\<And>n'. n' \<in> set ns \<Longrightarrow> node_at n' ?l1 = node_at n' l"
  proof -
    fix n' assume n': "n' \<in> set ns"
    then have neq: "n' \<noteq> n" using nn by auto
    from n' Cons.prems(3) obtain e' where e': "e' \<in> set l" "fst e' = n'" by auto
    have "node_at n' l = Some e'" using node_at_mem [OF Cons.prems(1) e'(1)] by (simp add: e'(2))
    then show "node_at n' ?l1 = node_at n' l"
      using neq by (simp add: node_at_append node_at_erase)
  qed
  have "splice_all (n # ns) l = splice_all ns ?l1" by (simp add: na)
  also have "\<dots> = Inr (filter (\<lambda>e. fst e \<notin> set ns) ?l1 @ map (\<lambda>n. the (node_at n ?l1)) ns)"
    by (rule Cons.IH [OF d1 d2 s1])
  also have "map (\<lambda>n. the (node_at n ?l1)) ns = map (\<lambda>n. the (node_at n l)) ns"
    using lk by simp
  also have "filter (\<lambda>e. fst e \<notin> set ns) ?l1 = filter (\<lambda>e. fst e \<notin> set (n # ns)) l @ [e]"
    using nn e(2) by (auto simp: list_erase_def intro: filter_cong)
  finally show ?case by (simp add: na)
qed

lemma splice_all_bucket:
  assumes d: "distinct (map fst l)"
  shows "splice_all (nodes_of k l) l =
    Inr (filter (\<lambda>e. fst (snd e) \<noteq> k) l @ filter (\<lambda>e. fst (snd e) = k) l)"
proof -
  have mem: "\<And>e. e \<in> set l \<Longrightarrow> fst e \<in> set (nodes_of k l) \<longleftrightarrow> fst (snd e) = k"
  proof -
    fix e assume e: "e \<in> set l"
    show "fst e \<in> set (nodes_of k l) \<longleftrightarrow> fst (snd e) = k"
    proof
      assume "fst e \<in> set (nodes_of k l)"
      then obtain e' where e': "e' \<in> set l" "fst (snd e') = k" "fst e' = fst e"
        by (auto simp: nodes_of_def)
      then have "e' = e" using d e by (metis node_at_mem option.inject)
      then show "fst (snd e) = k" using e' by simp
    next
      assume "fst (snd e) = k"
      then show "fst e \<in> set (nodes_of k l)" using e by (auto simp: nodes_of_def)
    qed
  qed
  have 1: "filter (\<lambda>e. fst e \<notin> set (nodes_of k l)) l = filter (\<lambda>e. fst (snd e) \<noteq> k) l"
    using mem by (auto intro: filter_cong)
  have 2: "map (\<lambda>n. the (node_at n l)) (nodes_of k l) = filter (\<lambda>e. fst (snd e) = k) l"
  proof -
    have "map (\<lambda>n. the (node_at n l)) (nodes_of k l)
        = map (\<lambda>e. the (node_at (fst e) l)) (filter (\<lambda>e. fst (snd e) = k) l)"
      by (simp add: nodes_of_def comp_def)
    also have "\<dots> = map (\<lambda>e. e) (filter (\<lambda>e. fst (snd e) = k) l)"
      by (rule map_cong) (auto simp: node_at_mem [OF d])
    finally show ?thesis by simp
  qed
  show ?thesis
    using splice_all_gen [OF d distinct_nodes_of [OF d, of k] nodes_of_subset [of k l]]
    by (simp add: 1 2)
qed

lemma move_to_back_body_absent:
  "cinv c \<Longrightarrow> k \<notin> fst ` set (entries c) \<Longrightarrow> move_to_back_body k c = (Inl KeyNotFound, c)"
  using cinv_find [of c k] by (simp add: move_to_back_body_def nodes_of_entries)

lemma move_to_back_body_fail:
  "move_to_back_body k c = (Inl e, c') \<Longrightarrow> c' = c"
  by (auto simp: move_to_back_body_def split: option.splits sum.splits)

lemma move_to_back_body_ok:
  assumes "cinv c" and "k \<in> fst ` set (entries c)"
  shows "\<exists>c'. move_to_back_body k c = (Inr (), c') \<and> cinv c' \<and>
           entries c' = without_key k (entries c) @ with_key k (entries c) \<and>
           iterator_list_map c' = iterator_list_map c"
proof -
  let ?m = "iterator_list_map c" and ?l = "pair_list c"
  let ?l' = "filter (\<lambda>e. fst (snd e) \<noteq> k) ?l @ filter (\<lambda>e. fst (snd e) = k) ?l"
  let ?c' = "\<lparr>iterator_list_map = ?m, pair_list = ?l'\<rparr>"
  have d: "distinct (map fst ?l)" by (rule cinv_distinct [OF assms(1)])
  have ne: "nodes_of k ?l \<noteq> []" using assms(2) by (simp add: nodes_of_entries)
  have f: "map_find k ?m = Some (nodes_of k ?l)" using cinv_find [OF assms(1), of k] ne by simp
  have r: "move_to_back_body k c = (Inr (), ?c')"
    using f splice_all_bucket [OF d, of k] by (simp add: move_to_back_body_def)
  have no: "\<And>k'. nodes_of k' ?l' = nodes_of k' ?l"
    using nodes_of_filter_key [where P = "\<lambda>x. x \<noteq> k" and l = ?l]
      nodes_of_filter_key [where P = "\<lambda>x. x = k" and l = ?l]
    by (simp add: nodes_of_append)
  have "cinv ?c'"
  proof (rule cinvI)
    show "distinct (map fst ?l')"
      using d by (auto simp: distinct_map_filter dest: inj_onD [OF iffD1 [OF distinct_map, THEN conjunct2]])
    show "sorted_wrt (<) (map fst ?m)" by (rule cinv_sorted [OF assms(1)])
    fix k'
    show "map_of ?m k' = (if nodes_of k' ?l' = [] then None else Some (nodes_of k' ?l'))"
      using cinv_find [OF assms(1), of k'] by (simp add: no map_find_def)
  qed
  moreover have "entries ?c' = without_key k (entries c) @ with_key k (entries c)"
    by (simp add: entries_def without_key_def with_key_def filter_map comp_def)
  ultimately show ?thesis using r by simp
qed

subsection \<open>clear\<close>

lemma clear_body_ok: "\<exists>c'. clear_body c = (Inr (), c') \<and> cinv c' \<and> entries c' = []"
  by (simp add: clear_body_def cinv_def entries_def map_find_def)

subsection \<open>accessors\<close>

lemma front_body_ok:
  "pair_list c \<noteq> [] \<Longrightarrow> \<exists>e. front_body c = Inr e \<and> snd e = hd (entries c) \<and> e = hd (pair_list c)"
  by (cases "pair_list c") (auto simp: front_body_def entries_def)

lemma back_body_ok:
  "pair_list c \<noteq> [] \<Longrightarrow> \<exists>e. back_body c = Inr e \<and> snd e = last (entries c) \<and> e = last (pair_list c)"
  by (auto simp: back_body_def entries_def last_map)

lemma first_body_absent:
  "cinv c \<Longrightarrow> k \<notin> fst ` set (entries c) \<Longrightarrow> first_body k c = Inl KeyNotFound"
  using cinv_find [of c k] by (simp add: first_body_def nodes_of_entries)

lemma last_body_absent:
  "cinv c \<Longrightarrow> k \<notin> fst ` set (entries c) \<Longrightarrow> last_body k c = Inl KeyNotFound"
  using cinv_find [of c k] by (simp add: last_body_def nodes_of_entries)

lemma with_key_entries:
  "with_key k (entries c) = map snd (filter (\<lambda>e. fst (snd e) = k) (pair_list c))"
  by (simp add: with_key_def entries_def filter_map comp_def)

lemma first_body_ok:
  assumes "cinv c" and "k \<in> fst ` set (entries c)"
  shows "\<exists>e. first_body k c = Inr e \<and> snd e = hd (with_key k (entries c)) \<and> e \<in> set (pair_list c)"
proof -
  let ?l = "pair_list c"
  let ?f = "filter (\<lambda>e. fst (snd e) = k) ?l"
  have d: "distinct (map fst ?l)" by (rule cinv_distinct [OF assms(1)])
  have ne: "nodes_of k ?l \<noteq> []" using assms(2) by (simp add: nodes_of_entries)
  then have fne: "?f \<noteq> []" by (simp add: nodes_of_def)
  have f: "map_find k (iterator_list_map c) = Some (nodes_of k ?l)"
    using cinv_find [OF assms(1), of k] ne by simp
  have h: "hd (nodes_of k ?l) = fst (hd ?f)" using fne by (simp add: nodes_of_def hd_map)
  have "hd ?f \<in> set ?f" using fne by (rule hd_in_set)
  then have mem: "hd ?f \<in> set ?l" by auto
  have na: "node_at (fst (hd ?f)) ?l = Some (hd ?f)" by (rule node_at_mem [OF d mem])
  obtain n b' where b: "nodes_of k ?l = n # b'" using ne by (cases "nodes_of k ?l") auto
  have "first_body k c = Inr (hd ?f)"
    using f na h by (simp add: first_body_def b)
  moreover have "snd (hd ?f) = hd (with_key k (entries c))"
    using fne by (simp add: with_key_entries hd_map)
  ultimately show ?thesis using mem by simp
qed

lemma last_body_ok:
  assumes "cinv c" and "k \<in> fst ` set (entries c)"
  shows "\<exists>e. last_body k c = Inr e \<and> snd e = last (with_key k (entries c)) \<and> e \<in> set (pair_list c)"
proof -
  let ?l = "pair_list c"
  let ?f = "filter (\<lambda>e. fst (snd e) = k) ?l"
  have d: "distinct (map fst ?l)" by (rule cinv_distinct [OF assms(1)])
  have ne: "nodes_of k ?l \<noteq> []" using assms(2) by (simp add: nodes_of_entries)
  then have fne: "?f \<noteq> []" by (simp add: nodes_of_def)
  have f: "map_find k (iterator_list_map c) = Some (nodes_of k ?l)"
    using cinv_find [OF assms(1), of k] ne by simp
  have h: "last (nodes_of k ?l) = fst (last ?f)" using fne by (simp add: nodes_of_def last_map)
  have "last ?f \<in> set ?f" using fne by (rule last_in_set)
  then have mem: "last ?f \<in> set ?l" by auto
  have na: "node_at (fst (last ?f)) ?l = Some (last ?f)" by (rule node_at_mem [OF d mem])
  have "last_body k c = Inr (last ?f)"
    using f na h ne by (simp add: last_body_def)
  moreover have "snd (last ?f) = last (with_key k (entries c))"
    using fne by (simp add: with_key_entries last_map)
  ultimately show ?thesis using mem by simp
qed

subsection \<open>writing through a reference\<close>

lemma write_ids:
  "map fst (map (\<lambda>e. if fst e = n then (fst e, fst (snd e), v) else e) l) = map fst l"
  by (induction l) auto

lemma write_nodes_of:
  "nodes_of k (map (\<lambda>e. if fst e = n then (fst e, fst (snd e), v) else e) l) = nodes_of k l"
  by (induction l) (auto simp: nodes_of_Cons)

lemma write_keys:
  "map fst (map snd (map (\<lambda>e. if fst e = n then (fst e, fst (snd e), v) else e) l))
     = map fst (map snd l)"
  by (induction l) auto

lemma write_node_cinv:
  assumes "cinv c"
  shows "cinv (write_node n v c)"
proof -
  let ?l' = "map (\<lambda>e. if fst e = n then (fst e, fst (snd e), v) else e) (pair_list c)"
  have "cinv \<lparr>iterator_list_map = iterator_list_map c, pair_list = ?l'\<rparr>"
  proof (rule cinvI)
    show "distinct (map fst ?l')" unfolding write_ids by (rule cinv_distinct [OF assms])
    show "sorted_wrt (<) (map fst (iterator_list_map c))" by (rule cinv_sorted [OF assms])
    fix k
    show "map_of (iterator_list_map c) k = (if nodes_of k ?l' = [] then None else Some (nodes_of k ?l'))"
      unfolding write_nodes_of using cinv_find [OF assms, of k] by (simp add: map_find_def)
  qed
  then show ?thesis by (cases c) (simp add: write_node_def)
qed

lemma write_node_entries_keys:
  "map fst (entries (write_node n v c)) = map fst (entries c)"
  using write_keys [of n v "pair_list c"] by (simp add: write_node_def entries_def)

lemma write_node_front:
  assumes "distinct (map fst (pair_list c))" and "pair_list c \<noteq> []"
  shows "entries (write_node (fst (hd (pair_list c))) v c)
           = (fst (hd (entries c)), v) # tl (entries c)"
proof -
  obtain e rest where l: "pair_list c = e # rest" using assms(2) by (cases "pair_list c") auto
  have "map (\<lambda>a. if fst a = fst e then (fst a, fst (snd a), v) else a) rest = rest"
    using assms(1) by (auto simp: l map_idI image_iff intro!: map_idI)
  then show ?thesis by (simp add: write_node_def entries_def l)
qed

subsection \<open>the deep clone\<close>

lemma copy_list_gen:
  "map snd (fold (\<lambda>e new_list. list_push_back (fst (snd e)) (snd (snd e)) new_list) l acc)
      = map snd acc @ map snd l \<and>
   (distinct (map fst acc) \<longrightarrow>
      distinct (map fst (fold (\<lambda>e new_list. list_push_back (fst (snd e)) (snd (snd e)) new_list) l acc)))"
proof (induction l arbitrary: acc)
  case Nil
  then show ?case by simp
next
  case (Cons e l)
  have "distinct (map fst acc) \<Longrightarrow> distinct (map fst (list_push_back (fst (snd e)) (snd (snd e)) acc))"
    using fresh_node_notin [of acc] by (simp add: list_push_back_def)
  then show ?case using Cons.IH [of "list_push_back (fst (snd e)) (snd (snd e)) acc"]
    by (simp add: list_push_back_def)
qed

lemma copy_list_entries: "map snd (copy_list l) = map snd l"
  using copy_list_gen [of l "[]"] by (simp add: copy_list_def)

lemma copy_list_distinct: "distinct (map fst (copy_list l))"
  using copy_list_gen [of l "[]"] by (simp add: copy_list_def)

lemma index_node_step:
  assumes "cinv \<lparr>iterator_list_map = m, pair_list = l\<rparr>" and "fst e \<notin> fst ` set l"
  shows "cinv \<lparr>iterator_list_map = index_node e m, pair_list = l @ [e]\<rparr>"
proof -
  let ?c = "\<lparr>iterator_list_map = m, pair_list = l\<rparr>"
  let ?k = "fst (snd e)" and ?n = "fst e"
  have d: "distinct (map fst (l @ [e]))" using cinv_distinct [OF assms(1)] assms(2) by simp
  have no: "\<And>k'. nodes_of k' (l @ [e]) = nodes_of k' l @ (if k' = ?k then [?n] else [])"
    by (auto simp: nodes_of_append nodes_of_Cons)
  have srt: "sorted_wrt (<) (map fst m)" using cinv_sorted [OF assms(1)] by simp
  have fnd: "\<And>k'. map_of m k' = (if nodes_of k' l = [] then None else Some (nodes_of k' l))"
    using cinv_find [OF assms(1)] by (simp add: map_find_def)
  show ?thesis
  proof (cases "map_of m ?k")
    case None
    then have i: "index_node e m = map_insert ?k [?n] m" by (simp add: index_node_def map_find_def)
    have e: "nodes_of ?k l = []" using fnd [of ?k] None by (auto split: if_splits)
    show ?thesis unfolding i
    proof (rule cinvI [OF d])
      show "sorted_wrt (<) (map fst (map_insert ?k [?n] m))" using srt by (rule sorted_map_insert)
    next
      fix k'
      show "map_of (map_insert ?k [?n] m) k' =
          (if nodes_of k' (l @ [e]) = [] then None else Some (nodes_of k' (l @ [e])))"
        using fnd [of k'] e by (simp add: no map_of_map_insert [OF None])
    qed
  next
    case (Some b)
    then have i: "index_node e m = map_update ?k (\<lambda>b. b @ [?n]) m"
      by (simp add: index_node_def map_find_def)
    show ?thesis unfolding i
    proof (rule cinvI [OF d])
      show "sorted_wrt (<) (map fst (map_update ?k (\<lambda>b. b @ [?n]) m))" using srt by simp
    next
      fix k'
      show "map_of (map_update ?k (\<lambda>b. b @ [?n]) m) k' =
          (if nodes_of k' (l @ [e]) = [] then None else Some (nodes_of k' (l @ [e])))"
        using fnd [of k'] fnd [of ?k] Some
        by (auto simp: no map_of_map_update split: if_splits)
    qed
  qed
qed

lemma index_all:
  "distinct (map fst l) \<Longrightarrow> cinv \<lparr>iterator_list_map = fold index_node l [], pair_list = l\<rparr>"
proof (induction l rule: rev_induct)
  case Nil
  then show ?case by (simp add: cinv_def map_find_def)
next
  case (snoc e l)
  then have "cinv \<lparr>iterator_list_map = fold index_node l [], pair_list = l\<rparr>" by simp
  moreover have "fst e \<notin> fst ` set l" using snoc.prems by auto
  ultimately show ?case using index_node_step by fastforce
qed

lemma container_copy_cinv: "cinv (container_copy c)"
  using index_all [OF copy_list_distinct] by (simp add: container_copy_def Let_def)

lemma container_copy_entries: "entries (container_copy c) = entries c"
  by (simp add: container_copy_def Let_def entries_def copy_list_entries)

lemma liveD: "live w i x \<Longrightarrow> i < length (objs w) \<and> objs w ! i = Some x"
  by (simp add: live_def)

lemma winv_range: "winv w \<Longrightarrow> live w i x \<Longrightarrow> dataPtr x = Some p \<Longrightarrow> p < length (cells w)"
  unfolding winv_def by blast

lemma winv_pinned:
  "winv w \<Longrightarrow> live w i x \<Longrightarrow> unshareable x \<Longrightarrow> dataPtr x = Some p \<Longrightarrow>
   live w j y \<Longrightarrow> j \<noteq> i \<Longrightarrow> dataPtr y \<noteq> Some p"
  unfolding winv_def by blast

lemma winv_cinv: "winv w \<Longrightarrow> p < length (cells w) \<Longrightarrow> cinv (cells w ! p)"
  unfolding winv_def by blast

lemma winv_init: "winv init_world"
  by (simp add: winv_def init_world_def live_def)

lemma self_live: "winv w \<Longrightarrow> live w i x \<Longrightarrow> self i w = Inr x"
  using winv_range [of w i x] by (auto simp: self_def live_def split: option.splits)

lemma self_Inr: "self i w = Inr x \<Longrightarrow> live w i x"
  by (auto simp: self_def live_def split: option.splits if_splits)

lemma self_Inl: "self i w = Inl e \<Longrightarrow> e = undefined_behaviour"
  by (auto simp: self_def split: option.splits if_splits)

lemma kvfifo_eta: "\<lparr>unshareable = unshareable x, dataPtr = dataPtr x\<rparr> = (x::kvfifo)"
  by simp

lemma rollback_same: "live w i x \<Longrightarrow> guard_rollback (copy_guard i x) w = w"
  by (simp add: guard_rollback_def copy_guard_def set_obj_def live_def list_update_same_conv)

subsection \<open>Sharing\<close>

lemma filter_le_one_unique:
  "length (filter P xs) \<le> 1 \<Longrightarrow> i < length xs \<Longrightarrow> j < length xs \<Longrightarrow> P (xs ! i) \<Longrightarrow>
   P (xs ! j) \<Longrightarrow> i = j"
proof (induction xs arbitrary: i j)
  case Nil
  then show ?case by simp
next
  case (Cons a xs)
  show ?case
  proof (cases "P a")
    case True
    with Cons.prems(1) have "filter P xs = []" by simp
    then have none: "\<forall>x\<in>set xs. \<not> P x" by (simp add: filter_empty_conv)
    have "i = 0"
    proof (cases i)
      case (Suc i')
      with Cons.prems have "xs ! i' \<in> set xs" "P (xs ! i')" by auto
      with none show ?thesis by blast
    qed simp
    moreover have "j = 0"
    proof (cases j)
      case (Suc j')
      with Cons.prems have "xs ! j' \<in> set xs" "P (xs ! j')" by auto
      with none show ?thesis by blast
    qed simp
    ultimately show ?thesis by simp
  next
    case False
    with Cons.prems obtain i' j' where ij: "i = Suc i'" "j = Suc j'"
      by (cases i; cases j) auto
    with Cons.prems False have "i' = j'"
      by (intro Cons.IH) auto
    with ij show ?thesis by simp
  qed
qed

lemma sole_owner:
  assumes "\<not> 2 < use_count w (copy_guard i x) (dataPtr x)" and "live w i x"
    and "dataPtr x = Some p" and "live w j y" and "j \<noteq> i"
  shows "dataPtr y \<noteq> Some p"
proof
  assume "dataPtr y = Some p"
  then have pj: "points_at p (objs w ! j)" using assms(4) by (simp add: points_at_def live_def)
  have pi: "points_at p (objs w ! i)" using assms(2,3) by (simp add: points_at_def live_def)
  have "length (filter (points_at p) (objs w)) \<le> 1"
    using assms(1,3) by (simp add: use_count_def copy_guard_def)
  then have "i = j"
    using filter_le_one_unique [of "points_at p" "objs w" i j] pi pj assms(2,4)
    by (simp add: live_def)
  with assms(5) show False by simp
qed

lemma queue_of_Some: "dataPtr x = Some p \<Longrightarrow> queue_of w x = entries (cells w ! p)"
  by (simp add: queue_of_def)

lemma aboutToModify_staged:
  assumes inv: "winv w" and lv: "live w i x" and ptr: "dataPtr x = Some p"
  shows "(oom AtClone \<and> aboutToModify mark (copy_guard i x) i x oom w = Inl bad_alloc) \<or>
         (\<exists>q w1. aboutToModify mark (copy_guard i x) i x oom w
                    = Inr (\<lparr>unshareable = mark, dataPtr = Some q\<rparr>, w1) \<and>
                  staged w i x mark q w1)"
proof (cases "2 < use_count w (copy_guard i x) (dataPtr x) \<and> \<not> unshareable x")
  case True
  show ?thesis
  proof (cases "oom AtClone")
    case True
    with \<open>2 < use_count w (copy_guard i x) (dataPtr x) \<and> \<not> unshareable x\<close> show ?thesis
      by (simp add: aboutToModify_def ptr make_shared_copy_def)
  next
    case False
    let ?q = "length (cells w)"
    let ?x1 = "\<lparr>unshareable = mark, dataPtr = Some ?q\<rparr>"
    let ?w1 = "set_obj i ?x1 (w\<lparr>cells := cells w @ [container_copy (cells w ! p)]\<rparr>)"
    have r: "aboutToModify mark (copy_guard i x) i x oom w = Inr (?x1, ?w1)"
      using True False by (simp add: aboutToModify_def ptr make_shared_copy_def Let_def)
    have pr: "p < length (cells w)" by (rule winv_range [OF inv lv ptr])
    have "staged w i x mark ?q ?w1"
      unfolding staged_def
    proof (intro conjI allI impI)
      show "objs ?w1 = (objs w)[i := Some ?x1]" by (simp add: set_obj_def)
      show "?q < length (cells ?w1)" by (simp add: set_obj_def)
      show "length (cells w) \<le> length (cells ?w1)" by (simp add: set_obj_def)
      show "entries (cells ?w1 ! ?q) = queue_of w x"
        by (simp add: set_obj_def container_copy_entries queue_of_Some [OF ptr])
    next
      fix j y assume "live w j y" "j \<noteq> i"
      then show "dataPtr y \<noteq> Some ?q" using winv_range [OF inv, of j y ?q] by auto
    next
      fix p' assume "p' < length (cells w)" "p' \<noteq> ?q"
      then show "cells ?w1 ! p' = cells w ! p'" by (simp add: set_obj_def nth_append)
    next
      fix p' assume "p' < length (cells ?w1)"
      then show "cinv (cells ?w1 ! p')"
        using winv_cinv [OF inv, of p'] container_copy_cinv [of "cells w ! p"]
        by (auto simp: set_obj_def nth_append)
    next
      fix p' assume "dataPtr x = Some p'" "p' \<noteq> ?q"
      then show "cells ?w1 ! p' = cells w ! p'" using pr ptr by (simp add: set_obj_def nth_append)
    qed
    with r show ?thesis by blast
  qed
next
  case False
  let ?x1 = "\<lparr>unshareable = mark, dataPtr = Some p\<rparr>"
  let ?w1 = "set_obj i ?x1 w"
  have x1: "x\<lparr>unshareable := mark\<rparr> = ?x1" using ptr by (cases x) simp
  have r: "aboutToModify mark (copy_guard i x) i x oom w = Inr (?x1, ?w1)"
    using False by (auto simp: aboutToModify_def Let_def x1)
  have pr: "p < length (cells w)" by (rule winv_range [OF inv lv ptr])
  have priv: "\<And>j y. live w j y \<Longrightarrow> j \<noteq> i \<Longrightarrow> dataPtr y \<noteq> Some p"
  proof -
    fix j y assume jy: "live w j y" "j \<noteq> i"
    show "dataPtr y \<noteq> Some p"
    proof (cases "unshareable x")
      case True
      then show ?thesis using winv_pinned [OF inv lv _ ptr jy] by simp
    next
      case nu: False
      with False have "\<not> 2 < use_count w (copy_guard i x) (dataPtr x)" by simp
      then show ?thesis using sole_owner [OF _ lv ptr jy] by simp
    qed
  qed
  have "staged w i x mark p ?w1"
    unfolding staged_def
    using pr priv winv_cinv [OF inv] by (simp add: set_obj_def queue_of_Some [OF ptr])
  with r show ?thesis by blast
qed

lemma guarded_call_elim:
  assumes inv: "winv w" and lv: "live w i x" and ptr: "dataPtr x = Some p"
  obtains
    (clone_failed) "oom AtClone" "guarded_call mark body i x oom w = (Inl bad_alloc, w)"
  | (ran) q w1 where "staged w i x mark q w1"
      "guarded_call mark body i x oom w = finish (copy_guard i x) q w1 (body (cells w1 ! q))"
proof -
  from aboutToModify_staged [OF inv lv ptr, of oom mark]
  consider (a) "oom AtClone" "aboutToModify mark (copy_guard i x) i x oom w = Inl bad_alloc"
    | (b) q w1 where "aboutToModify mark (copy_guard i x) i x oom w
                    = Inr (\<lparr>unshareable = mark, dataPtr = Some q\<rparr>, w1)" "staged w i x mark q w1"
    by blast
  then show thesis
  proof cases
    case a
    then have "guarded_call mark body i x oom w = (Inl bad_alloc, w)"
      by (simp add: guarded_call_def rollback_same [OF lv])
    with a(1) show ?thesis by (rule clone_failed)
  next
    case b
    have "guarded_call mark body i x oom w = finish (copy_guard i x) q w1 (body (cells w1 ! q))"
      by (simp add: guarded_call_def b(1) finish_def split: prod.splits sum.splits)
    with b(2) show ?thesis by (rule ran)
  qed
qed

lemma staged_cell: "staged w i x mark q w1 \<Longrightarrow> cinv (cells w1 ! q) \<and> entries (cells w1 ! q) = queue_of w x"
  by (simp add: staged_def)

lemma snapshot_length [simp]: "length (snapshot w) = length (objs w)"
  by (simp add: snapshot_def)

lemma staged_commit:
  assumes st: "staged w i x mark q w1" and inv: "winv w" and lv: "live w i x" and c: "cinv c"
  shows "winv (set_cell q c w1) \<and>
         snapshot (set_cell q c w1) = (snapshot w)[i := Some (mark, entries c)] \<and>
         live (set_cell q c w1) i \<lparr>unshareable = mark, dataPtr = Some q\<rparr> \<and>
         cells (set_cell q c w1) ! q = c"
proof -
  let ?w' = "set_cell q c w1"
  let ?x' = "\<lparr>unshareable = mark, dataPtr = Some q\<rparr>"
  have ob: "objs ?w' = (objs w)[i := Some ?x']" using st by (simp add: staged_def set_cell_def)
  have q: "q < length (cells w1)" using st by (simp add: staged_def)
  have len: "length (cells w) \<le> length (cells w1)" using st by (simp add: staged_def)
  have priv: "\<And>j y. live w j y \<Longrightarrow> j \<noteq> i \<Longrightarrow> dataPtr y \<noteq> Some q"
    using st unfolding staged_def by blast
  have keep: "\<And>p. p < length (cells w) \<Longrightarrow> p \<noteq> q \<Longrightarrow> cells ?w' ! p = cells w ! p"
    using st by (simp add: staged_def set_cell_def)
  have il: "i < length (objs w)" using lv by (simp add: live_def)
  have lv': "\<And>j y. live ?w' j y \<longleftrightarrow> (if j = i then y = ?x' else live w j y)"
    using il by (auto simp: live_def ob)
  have cq: "cells ?w' ! q = c" using q by (simp add: set_cell_def)
  have 1: "winv ?w'"
    unfolding winv_def
  proof (intro conjI allI impI)
    fix j y p assume h: "live ?w' j y" "dataPtr y = Some p"
    have lc: "length (cells ?w') = length (cells w1)" by (simp add: set_cell_def)
    show "p < length (cells ?w')"
    proof (cases "j = i")
      case True
      with h have "p = q" by (auto simp: lv')
      then show ?thesis using q lc by simp
    next
      case False
      with h have "live w j y" by (simp add: lv')
      then have "p < length (cells w)" by (rule winv_range [OF inv _ h(2)])
      then show ?thesis using len lc by simp
    qed
  next
    fix a xa pa b xb
    assume h: "live ?w' a xa" "unshareable xa" "dataPtr xa = Some pa" "live ?w' b xb" "b \<noteq> a"
    show "dataPtr xb \<noteq> Some pa"
    proof (cases "a = i")
      case True
      have "xa = ?x'" using h(1) True by (simp add: lv')
      then have "pa = q" using h(3) by simp
      moreover have "b \<noteq> i" using h(5) True by simp
      moreover from this have "live w b xb" using h(4) by (simp add: lv')
      ultimately show ?thesis using priv by simp
    next
      case False
      with h have a: "live w a xa" by (simp add: lv')
      show ?thesis
      proof (cases "b = i")
        case True
        with h have "dataPtr xb = Some q" by (simp add: lv')
        moreover have "dataPtr xa \<noteq> Some q" using priv [OF a False] .
        ultimately show ?thesis using h(3) by auto
      next
        case bi: False
        with h have "live w b xb" by (simp add: lv')
        then show ?thesis using winv_pinned [OF inv a h(2,3) _ h(5)] by simp
      qed
    qed
  next
    fix p assume "p < length (cells ?w')"
    then show "cinv (cells ?w' ! p)"
      using st c by (auto simp: staged_def set_cell_def nth_list_update)
  qed
  have 2: "snapshot ?w' = (snapshot w)[i := Some (mark, entries c)]"
  proof (rule nth_equalityI)
    show "length (snapshot ?w') = length ((snapshot w)[i := Some (mark, entries c)])"
      by (simp add: ob)
  next
    fix j assume "j < length (snapshot ?w')"
    then have j: "j < length (objs w)" by (simp add: ob)
    show "snapshot ?w' ! j = (snapshot w)[i := Some (mark, entries c)] ! j"
    proof (cases "j = i")
      case True
      then show ?thesis using j cq by (simp add: snapshot_def ob snap_obj_def queue_of_def)
    next
      case False
      show ?thesis
      proof (cases "objs w ! j")
        case None
        then show ?thesis using j False by (simp add: snapshot_def ob)
      next
        case (Some y)
        then have ly: "live w j y" using j by (simp add: live_def)
        have "queue_of ?w' y = queue_of w y"
        proof (cases "dataPtr y")
          case None
          then show ?thesis by (simp add: queue_of_def)
        next
          case (Some p)
          then have "p \<noteq> q" "p < length (cells w)"
            using priv [OF ly False] winv_range [OF inv ly Some] by auto
          then show ?thesis using keep by (simp add: queue_of_def Some)
        qed
        then show ?thesis using j False Some by (simp add: snapshot_def ob snap_obj_def)
      qed
    qed
  qed
  have 3: "live ?w' i ?x'" by (simp add: lv')
  from 1 2 3 cq show ?thesis by simp
qed

lemma staged_rollback:
  assumes st: "staged w i x mark q w1" and inv: "winv w" and lv: "live w i x"
    and ptr: "dataPtr x = Some p"
  shows "winv (guard_rollback (copy_guard i x) (set_cell q (cells w1 ! q) w1)) \<and>
         snapshot (guard_rollback (copy_guard i x) (set_cell q (cells w1 ! q) w1)) = snapshot w \<and>
         objs (guard_rollback (copy_guard i x) (set_cell q (cells w1 ! q) w1)) = objs w"
proof -
  let ?w' = "guard_rollback (copy_guard i x) (set_cell q (cells w1 ! q) w1)"
  have ob: "objs ?w' = objs w"
    using st lv
    by (simp add: staged_def guard_rollback_def copy_guard_def set_obj_def set_cell_def live_def
        list_update_same_conv)
  have ce: "cells ?w' = cells w1"
    by (simp add: guard_rollback_def set_obj_def set_cell_def)
  have len: "length (cells w) \<le> length (cells w1)" using st by (simp add: staged_def)
  have priv: "\<And>j y. live w j y \<Longrightarrow> j \<noteq> i \<Longrightarrow> dataPtr y \<noteq> Some q"
    using st unfolding staged_def by blast
  have keep: "\<And>r. r < length (cells w) \<Longrightarrow> r \<noteq> q \<Longrightarrow> cells w1 ! r = cells w ! r"
    using st by (simp add: staged_def)
  have same: "\<And>j y. live w j y \<Longrightarrow> queue_of ?w' y = queue_of w y"
  proof -
    fix j y assume ly: "live w j y"
    show "queue_of ?w' y = queue_of w y"
    proof (cases "dataPtr y")
      case None
      then show ?thesis by (simp add: queue_of_def)
    next
      case (Some r)
      have r: "r < length (cells w)" by (rule winv_range [OF inv ly Some])
      show ?thesis
      proof (cases "r = q")
        case True
        with priv [OF ly] Some have "j = i" by auto
        with ly lv have "y = x" by (simp add: live_def)
        with Some ptr True have "p = q" by simp
        moreover have "entries (cells w1 ! q) = entries (cells w ! p)"
          using st by (simp add: staged_def queue_of_Some [OF ptr])
        ultimately show ?thesis using True Some by (simp add: queue_of_def ce)
      next
        case False
        then show ?thesis using keep [OF r] Some by (simp add: queue_of_def ce)
      qed
    qed
  qed
  have 1: "winv ?w'"
    unfolding winv_def
  proof (intro conjI allI impI)
    fix j y r assume "live ?w' j y" "dataPtr y = Some r"
    then show "r < length (cells ?w')"
      using winv_range [OF inv, of j y r] len by (simp add: live_def ob ce)
  next
    fix a xa pa b xb
    assume "live ?w' a xa" "unshareable xa" "dataPtr xa = Some pa" "live ?w' b xb" "b \<noteq> a"
    then show "dataPtr xb \<noteq> Some pa"
      using winv_pinned [OF inv, of a xa pa b xb] by (simp add: live_def ob)
  next
    fix r assume "r < length (cells ?w')"
    then show "cinv (cells ?w' ! r)" using st by (simp add: staged_def ce)
  qed
  have 2: "snapshot ?w' = snapshot w"
    unfolding snapshot_def ob
  proof (rule map_cong [OF refl])
    fix ob assume "ob \<in> set (objs w)"
    then obtain j where j: "j < length (objs w)" "objs w ! j = ob" by (auto simp: in_set_conv_nth)
    show "map_option (snap_obj ?w') ob = map_option (snap_obj w) ob"
    proof (cases ob)
      case None
      then show ?thesis by simp
    next
      case (Some y)
      with j have "live w j y" by (simp add: live_def)
      then show ?thesis using same Some by (simp add: snap_obj_def)
    qed
  qed
  from 1 2 ob show ?thesis by simp
qed

lemma guarded_call_spec:
  assumes inv: "winv w" and lv: "live w i x" and ptr: "dataPtr x = Some p"
    and contract: "\<forall>c. cinv c \<and> entries c = queue_of w x \<longrightarrow>
        (\<exists>e. body c = (Inl e, c) \<and> E e) \<or>
        (\<exists>r c'. body c = (Inr r, c') \<and> cinv c' \<and> entries c' = es \<and> R r c')"
  shows "(\<exists>e w'. guarded_call mark body i x oom w = (Inl e, w') \<and>
            (E e \<or> e = bad_alloc \<and> oom AtClone) \<and>
            winv w' \<and> snapshot w' = snapshot w \<and> objs w' = objs w) \<or>
         (\<exists>r q w'. guarded_call mark body i x oom w = (Inr (r, q), w') \<and>
            winv w' \<and> snapshot w' = (snapshot w)[i := Some (mark, es)] \<and>
            live w' i \<lparr>unshareable = mark, dataPtr = Some q\<rparr> \<and> R r (cells w' ! q))"
proof (rule guarded_call_elim [OF inv lv ptr, of oom mark body], goal_cases)
  case 1
  then show ?thesis using inv by auto
next
  case ran: (2 q w1)
  let ?c = "cells w1 ! q"
  from staged_cell [OF ran(1)] have c: "cinv ?c" "entries ?c = queue_of w x" by auto
  from contract c have "(\<exists>e. body ?c = (Inl e, ?c) \<and> E e) \<or>
        (\<exists>r c'. body ?c = (Inr r, c') \<and> cinv c' \<and> entries c' = es \<and> R r c')" by blast
  then show ?thesis
  proof
    assume "\<exists>e. body ?c = (Inl e, ?c) \<and> E e"
    then obtain e where e: "body ?c = (Inl e, ?c)" "E e" by blast
    have "guarded_call mark body i x oom w
            = (Inl e, guard_rollback (copy_guard i x) (set_cell q ?c w1))"
      by (simp add: ran(2) e(1) finish_def)
    then show ?thesis using staged_rollback [OF ran(1) inv lv ptr] e(2) by auto
  next
    assume "\<exists>r c'. body ?c = (Inr r, c') \<and> cinv c' \<and> entries c' = es \<and> R r c'"
    then obtain r c' where r: "body ?c = (Inr r, c')" "cinv c'" "entries c' = es" "R r c'"
      by blast
    have "guarded_call mark body i x oom w = (Inr (r, q), set_cell q c' w1)"
      by (simp add: ran(2) r(1) finish_def)
    then show ?thesis using staged_commit [OF ran(1) inv lv r(2)] r(3,4) by auto
  qed
qed

lemma empty_queue: "empty_kv w x \<longleftrightarrow> queue_of w x = []"
  by (simp add: empty_kv_def queue_of_def entries_def split: option.splits)

lemma size_queue: "size_kv w x = length (queue_of w x)"
  by (simp add: size_kv_def queue_of_def entries_def split: option.splits)

lemma nonempty_ptr: "queue_of w x \<noteq> [] \<Longrightarrow> \<exists>p. dataPtr x = Some p"
  by (cases "dataPtr x") (auto simp: queue_of_def)

lemma count_queue:
  assumes "winv w" and "live w i x"
  shows "count w x k = length (with_key k (queue_of w x))"
proof (cases "dataPtr x")
  case None
  then show ?thesis by (simp add: count_def queue_of_def with_key_def)
next
  case (Some p)
  have c: "cinv (cells w ! p)" using winv_cinv [OF assms(1) winv_range [OF assms Some]] .
  show ?thesis
    using cinv_find [OF c, of k] length_nodes_of_entries [of k "cells w ! p"]
    by (auto simp: count_def Some queue_of_def)
qed

lemma k_range_sorted:
  assumes "winv w" and "live w i x"
  shows "sorted_wrt (<) (k_range w x)"
proof (cases "dataPtr x")
  case None
  then show ?thesis by (simp add: k_range_def)
next
  case (Some p)
  have c: "cinv (cells w ! p)" using winv_cinv [OF assms(1) winv_range [OF assms Some]] .
  show ?thesis using cinv_sorted [OF c] by (simp add: k_range_def Some)
qed

lemma k_range_set:
  assumes "winv w" and "live w i x"
  shows "set (k_range w x) = fst ` set (queue_of w x)"
proof (cases "dataPtr x")
  case None
  then show ?thesis by (simp add: k_range_def queue_of_def)
next
  case (Some p)
  let ?c = "cells w ! p"
  have c: "cinv ?c" using winv_cinv [OF assms(1) winv_range [OF assms Some]] .
  have "\<And>k. k \<in> fst ` set (iterator_list_map ?c) \<longleftrightarrow> k \<in> fst ` set (entries ?c)"
  proof -
    fix k
    have "k \<in> fst ` set (iterator_list_map ?c) \<longleftrightarrow> map_of (iterator_list_map ?c) k \<noteq> None"
      by (simp add: map_of_eq_None_iff)
    also have "\<dots> \<longleftrightarrow> nodes_of k (pair_list ?c) \<noteq> []"
      using cinv_find [OF c, of k] by (simp add: map_find_def)
    also have "\<dots> \<longleftrightarrow> k \<in> fst ` set (entries ?c)" by (simp add: nodes_of_entries)
    finally show "k \<in> fst ` set (iterator_list_map ?c) \<longleftrightarrow> k \<in> fst ` set (entries ?c)" .
  qed
  then show ?thesis by (auto simp: k_range_def Some queue_of_def)
qed

lemma k_range_unique:
  assumes "winv w" "live w i x" "winv w'" "live w' j y" "queue_of w' y = queue_of w x"
  shows "k_range w' y = k_range w x"
proof -
  have "sorted (k_range w x) \<and> distinct (k_range w x)"
    using k_range_sorted [OF assms(1,2)] by (simp add: strict_sorted_iff)
  moreover have "sorted (k_range w' y) \<and> distinct (k_range w' y)"
    using k_range_sorted [OF assms(3,4)] by (simp add: strict_sorted_iff)
  moreover have "set (k_range w' y) = set (k_range w x)"
    using k_range_set [OF assms(1,2)] k_range_set [OF assms(3,4)] assms(5) by simp
  ultimately show ?thesis by (simp add: sorted_distinct_set_unique)
qed

lemma unchanged_refl: "winv w \<Longrightarrow> unchanged w w"
  by (simp add: unchanged_def)

lemma void_result_simps [simp]:
  "void_result (Inl e, w) = (Inl e, w)" "void_result (Inr a, w) = (Inr (), w)"
  by (simp_all add: void_result_def)

lemma void_call_spec:
  assumes inv: "winv w" and lv: "live w i x" and ptr: "dataPtr x = Some p"
    and contract: "\<forall>c. cinv c \<and> entries c = queue_of w x \<longrightarrow>
        (\<exists>e. body c = (Inl e, c) \<and> E e) \<or>
        (\<exists>r c'. body c = (Inr r, c') \<and> cinv c' \<and> entries c' = es)"
  shows "(\<exists>e w'. void_result (guarded_call mark body i x oom w) = (Inl e, w') \<and>
            (E e \<or> e = bad_alloc \<and> oom AtClone) \<and> unchanged w w' \<and> objs w' = objs w) \<or>
         (\<exists>w'. void_result (guarded_call mark body i x oom w) = (Inr (), w') \<and>
            updated w i mark es w')"
proof -
  have "\<forall>c. cinv c \<and> entries c = queue_of w x \<longrightarrow>
        (\<exists>e. body c = (Inl e, c) \<and> E e) \<or>
        (\<exists>r c'. body c = (Inr r, c') \<and> cinv c' \<and> entries c' = es \<and> True)"
    using contract by simp
  from guarded_call_spec [OF inv lv ptr, of body E es "\<lambda>r c. True" mark oom, OF this]
  show ?thesis
  proof
    assume "\<exists>e w'. guarded_call mark body i x oom w = (Inl e, w') \<and>
            (E e \<or> e = bad_alloc \<and> oom AtClone) \<and>
            winv w' \<and> snapshot w' = snapshot w \<and> objs w' = objs w"
    then obtain e w' where "guarded_call mark body i x oom w = (Inl e, w')"
      "E e \<or> e = bad_alloc \<and> oom AtClone" "winv w'" "snapshot w' = snapshot w" "objs w' = objs w"
      by blast
    then show ?thesis by (auto simp: unchanged_def)
  next
    assume "\<exists>r q w'. guarded_call mark body i x oom w = (Inr (r, q), w') \<and>
            winv w' \<and> snapshot w' = (snapshot w)[i := Some (mark, es)] \<and>
            live w' i \<lparr>unshareable = mark, dataPtr = Some q\<rparr> \<and> True"
    then obtain r q w' where "guarded_call mark body i x oom w = (Inr (r, q), w')"
      "winv w'" "snapshot w' = (snapshot w)[i := Some (mark, es)]"
      "live w' i \<lparr>unshareable = mark, dataPtr = Some q\<rparr>"
      by blast
    then show ?thesis by (auto simp: updated_def)
  qed
qed

subsection \<open>push\<close>

lemma ensure_storage:
  assumes inv: "winv w" and lv: "live w i x" and ptr: "dataPtr x = None"
  shows "winv (set_obj i (x\<lparr>dataPtr := Some (length (cells w))\<rparr>) (w\<lparr>cells := cells w @ [empty_container]\<rparr>)) \<and>
         snapshot (set_obj i (x\<lparr>dataPtr := Some (length (cells w))\<rparr>) (w\<lparr>cells := cells w @ [empty_container]\<rparr>))
           = snapshot w \<and>
         live (set_obj i (x\<lparr>dataPtr := Some (length (cells w))\<rparr>) (w\<lparr>cells := cells w @ [empty_container]\<rparr>))
           i (x\<lparr>dataPtr := Some (length (cells w))\<rparr>)"
proof -
  let ?q = "length (cells w)"
  let ?x1 = "x\<lparr>dataPtr := Some ?q\<rparr>"
  let ?w0 = "set_obj i ?x1 (w\<lparr>cells := cells w @ [empty_container]\<rparr>)"
  have il: "i < length (objs w)" using lv by (simp add: live_def)
  have ob: "objs ?w0 = (objs w)[i := Some ?x1]" by (simp add: set_obj_def)
  have ce: "cells ?w0 = cells w @ [empty_container]" by (simp add: set_obj_def)
  have lv': "\<And>j y. live ?w0 j y \<longleftrightarrow> (if j = i then y = ?x1 else live w j y)"
    using il by (auto simp: live_def ob)
  have 1: "winv ?w0"
    unfolding winv_def
  proof (intro conjI allI impI)
    fix j y p assume h: "live ?w0 j y" "dataPtr y = Some p"
    show "p < length (cells ?w0)"
    proof (cases "j = i")
      case True
      with h show ?thesis by (auto simp: lv' ce)
    next
      case False
      with h have "live w j y" by (simp add: lv')
      then have "p < length (cells w)" by (rule winv_range [OF inv _ h(2)])
      then show ?thesis by (simp add: ce)
    qed
  next
    fix a xa pa b xb
    assume h: "live ?w0 a xa" "unshareable xa" "dataPtr xa = Some pa" "live ?w0 b xb" "b \<noteq> a"
    show "dataPtr xb \<noteq> Some pa"
    proof (cases "a = i")
      case True
      have "xa = ?x1" using h(1) True by (simp add: lv')
      then have pa: "pa = ?q" using h(3) by simp
      have "b \<noteq> i" using h(5) True by simp
      then have "live w b xb" using h(4) by (simp add: lv')
      then show ?thesis using winv_range [OF inv, of b xb ?q] pa by auto
    next
      case False
      with h have a: "live w a xa" by (simp add: lv')
      have par: "pa < ?q" by (rule winv_range [OF inv a h(3)])
      show ?thesis
      proof (cases "b = i")
        case True
        with h have "xb = ?x1" by (simp add: lv')
        then show ?thesis using par by auto
      next
        case bi: False
        with h have "live w b xb" by (simp add: lv')
        then show ?thesis using winv_pinned [OF inv a h(2,3) _ h(5)] by simp
      qed
    qed
  next
    fix p assume "p < length (cells ?w0)"
    then show "cinv (cells ?w0 ! p)"
      using winv_cinv [OF inv, of p] cinv_empty by (auto simp: ce nth_append)
  qed
  have 2: "snapshot ?w0 = snapshot w"
  proof (rule nth_equalityI)
    show "length (snapshot ?w0) = length (snapshot w)" by (simp add: ob)
  next
    fix j assume "j < length (snapshot ?w0)"
    then have j: "j < length (objs w)" by (simp add: ob)
    show "snapshot ?w0 ! j = snapshot w ! j"
    proof (cases "j = i")
      case True
      then show ?thesis using j lv ptr
        by (simp add: snapshot_def ob snap_obj_def queue_of_def ce live_def)
    next
      case False
      show ?thesis
      proof (cases "objs w ! j")
        case None
        then show ?thesis using j False by (simp add: snapshot_def ob)
      next
        case (Some y)
        then have ly: "live w j y" using j by (simp add: live_def)
        have "queue_of ?w0 y = queue_of w y"
          using winv_range [OF inv ly]
          by (cases "dataPtr y") (auto simp: queue_of_def ce nth_append)
        then show ?thesis using j False Some by (simp add: snapshot_def ob snap_obj_def)
      qed
    qed
  qed
  have 3: "live ?w0 i ?x1" by (simp add: lv')
  from 1 2 3 show ?thesis by simp
qed

lemma push_contract:
  "\<forall>c. cinv c \<and> entries c = es0 \<longrightarrow>
     (\<exists>e. push_body k v oom c = (Inl e, c) \<and>
              (e = bad_alloc \<and> (oom AtQueueNode \<or> oom AtBucketNode \<or> oom AtMapNode))) \<or>
     (\<exists>r c'. push_body k v oom c = (Inr r, c') \<and> cinv c' \<and> entries c' = es0 @ [(k, v)])"
proof (intro allI impI, elim conjE)
  fix c :: "('a, 'b) container_t"
  assume c: "cinv c" "entries c = es0"
  obtain r c' where rc: "push_body k v oom c = (r, c')" by (cases "push_body k v oom c")
  show "(\<exists>e. push_body k v oom c = (Inl e, c) \<and>
              (e = bad_alloc \<and> (oom AtQueueNode \<or> oom AtBucketNode \<or> oom AtMapNode))) \<or>
     (\<exists>r c'. push_body k v oom c = (Inr r, c') \<and> cinv c' \<and> entries c' = es0 @ [(k, v)])"
  proof (cases r)
    case (Inl e)
    with rc push_body_fail [of k v oom c e c'] push_body_no_oom [of oom k v c]
    show ?thesis by auto
  next
    case (Inr u)
    with rc push_body_ok [OF c(1), of k v oom u c'] c(2) show ?thesis by auto
  qed
qed

lemma unchanged_trans: "snapshot w0 = snapshot w \<Longrightarrow> unchanged w0 w' \<Longrightarrow> unchanged w w'"
  by (simp add: unchanged_def)

lemma updated_trans: "snapshot w0 = snapshot w \<Longrightarrow> updated w0 i m es w' \<Longrightarrow> updated w i m es w'"
  by (simp add: updated_def)

lemma push_spec:
  assumes inv: "winv w" and lv: "live w i x"
  shows "(\<exists>w'. push k v i oom w = (Inl bad_alloc, w') \<and> unchanged w w' \<and>
            (\<exists>s. oom s) \<and> (\<exists>x'. live w' i x' \<and> unshareable x' = unshareable x)) \<or>
         (\<exists>w'. push k v i oom w = (Inr (), w') \<and>
            updated w i False (queue_of w x @ [(k, v)]) w')"
proof (cases "dataPtr x")
  case (Some p)
  have p: "push k v i oom w = void_result (guarded_call False (push_body k v oom) i x oom w)"
    by (simp add: push_def self_live [OF inv lv] Some)
  from void_call_spec [where mark = False and oom = oom,
      OF inv lv Some push_contract [where k = k and v = v and oom = oom]]
  show ?thesis unfolding p using lv by (elim disjE exE conjE) (auto simp: live_def)
next
  case None
  show ?thesis
  proof (cases "oom AtMakeShared")
    case True
    then have "push k v i oom w = (Inl bad_alloc, w)"
      by (simp add: push_def self_live [OF inv lv] None make_shared_empty_def)
    then show ?thesis using True unchanged_refl [OF inv] lv by auto
  next
    case False
    let ?x1 = "x\<lparr>dataPtr := Some (length (cells w))\<rparr>"
    let ?w0 = "set_obj i ?x1 (w\<lparr>cells := cells w @ [empty_container]\<rparr>)"
    from ensure_storage [OF inv lv None]
    have w0: "winv ?w0" "snapshot ?w0 = snapshot w" "live ?w0 i ?x1" by auto
    have q: "queue_of ?w0 ?x1 = queue_of w x"
      by (simp add: queue_of_def None set_obj_def)
    have p: "push k v i oom w = void_result (guarded_call False (push_body k v oom) i ?x1 oom ?w0)"
      using False by (simp add: push_def self_live [OF inv lv] None make_shared_empty_def Let_def)
    have ptr: "dataPtr ?x1 = Some (length (cells w))" by simp
    from void_call_spec [where mark = False and oom = oom,
        OF w0(1) w0(3) ptr push_contract [where k = k and v = v and oom = oom]]
    consider
      (fail) w' where "push k v i oom w = (Inl bad_alloc, w')" "\<exists>s. oom s"
          "unchanged ?w0 w'" "objs w' = objs ?w0"
      | (ok) w' where "push k v i oom w = (Inr (), w')"
          "updated ?w0 i False (queue_of w x @ [(k, v)]) w'"
      unfolding p q by blast
    then show ?thesis
    proof cases
      case fail
      have "live w' i ?x1" using w0(3) fail(4) by (simp add: live_def)
      then show ?thesis using fail unchanged_trans [OF w0(2)] by auto
    next
      case ok
      then show ?thesis using updated_trans [OF w0(2)] by auto
    qed
  qed
qed

lemma push_ok:
  assumes inv: "winv w" and lv: "live w i x" and "\<And>s. \<not> oom s"
  shows "\<exists>w'. push k v i oom w = (Inr (), w') \<and> updated w i False (queue_of w x @ [(k, v)]) w'"
  using push_spec [OF inv lv, of k v oom] assms(3) by auto

subsection \<open>pop, pop by key, move to back, clear\<close>

lemma call_fails:
  assumes inv: "winv w" and lv: "live w i x" and ptr: "dataPtr x = Some p"
    and contract: "\<forall>c. cinv c \<and> entries c = queue_of w x \<longrightarrow> body c = (Inl e0, c)"
  shows "\<exists>e w'. guarded_call mark body i x oom w = (Inl e, w') \<and>
            (e = e0 \<or> e = bad_alloc \<and> oom AtClone) \<and> unchanged w w' \<and> objs w' = objs w"
proof -
  have "\<forall>c. cinv c \<and> entries c = queue_of w x \<longrightarrow>
        (\<exists>e. body c = (Inl e, c) \<and> e = e0) \<or>
        (\<exists>r c'. body c = (Inr r, c') \<and> cinv c' \<and> entries c' = [] \<and> False)"
    using contract by simp
  from guarded_call_spec [where mark = mark and oom = oom, OF inv lv ptr this]
  show ?thesis by (auto simp: unchanged_def)
qed

lemma pop_contract:
  "es0 \<noteq> [] \<Longrightarrow>
   \<forall>c. cinv c \<and> entries c = es0 \<longrightarrow>
     (\<exists>e. pop_body c = (Inl e, c) \<and> False) \<or>
     (\<exists>r c'. pop_body c = (Inr r, c') \<and> cinv c' \<and> entries c' = tl es0)"
  using pop_body_ok by (fastforce simp: entries_def)

lemma pop_key_contract_absent:
  "k \<notin> fst ` set es0 \<Longrightarrow>
   \<forall>c. cinv c \<and> entries c = es0 \<longrightarrow> pop_key_body k c = (Inl KeyNotFound, c)"
  using pop_key_body_absent by fastforce

lemma pop_key_contract:
  "k \<in> fst ` set es0 \<Longrightarrow>
   \<forall>c. cinv c \<and> entries c = es0 \<longrightarrow>
     (\<exists>e. pop_key_body k c = (Inl e, c) \<and> False) \<or>
     (\<exists>r c'. pop_key_body k c = (Inr r, c') \<and> cinv c' \<and> entries c' = remove_first_key k es0)"
  using pop_key_body_ok by fastforce

lemma move_to_back_contract_absent:
  "k \<notin> fst ` set es0 \<Longrightarrow>
   \<forall>c. cinv c \<and> entries c = es0 \<longrightarrow> move_to_back_body k c = (Inl KeyNotFound, c)"
  using move_to_back_body_absent by fastforce

lemma move_to_back_contract:
  "k \<in> fst ` set es0 \<Longrightarrow>
   \<forall>c. cinv c \<and> entries c = es0 \<longrightarrow>
     (\<exists>e. move_to_back_body k c = (Inl e, c) \<and> False) \<or>
     (\<exists>r c'. move_to_back_body k c = (Inr r, c') \<and> cinv c' \<and>
        entries c' = without_key k es0 @ with_key k es0)"
  using move_to_back_body_ok by fastforce

lemma clear_contract:
  "\<forall>c. cinv c \<and> entries c = es0 \<longrightarrow>
     (\<exists>e. clear_body c = (Inl e, c) \<and> False) \<or>
     (\<exists>r c'. clear_body c = (Inr r, c') \<and> cinv c' \<and> entries c' = [])"
  using clear_body_ok by fastforce

lemma pop_empty:
  "winv w \<Longrightarrow> live w i x \<Longrightarrow> queue_of w x = [] \<Longrightarrow> pop i oom w = (Inl EmptyCollection, w)"
  by (simp add: pop_def self_live empty_queue)

lemma pop_spec:
  assumes inv: "winv w" and lv: "live w i x" and ne: "queue_of w x \<noteq> []"
  shows "(\<exists>w'. pop i oom w = (Inl bad_alloc, w') \<and> oom AtClone \<and> unchanged w w' \<and> objs w' = objs w) \<or>
         (\<exists>w'. pop i oom w = (Inr (), w') \<and> updated w i False (tl (queue_of w x)) w')"
proof -
  obtain p where ptr: "dataPtr x = Some p" using nonempty_ptr [OF ne] by blast
  have p: "pop i oom w = void_result (guarded_call False pop_body i x oom w)"
    using ne by (simp add: pop_def self_live [OF inv lv] empty_queue)
  from void_call_spec [where mark = False and oom = oom, OF inv lv ptr pop_contract [OF ne]]
  show ?thesis unfolding p by blast
qed

lemma pop_key_empty:
  "winv w \<Longrightarrow> live w i x \<Longrightarrow> queue_of w x = [] \<Longrightarrow> pop_key k i oom w = (Inl KeyNotFound, w)"
  by (simp add: pop_key_def self_live empty_queue)

lemma pop_key_absent:
  assumes inv: "winv w" and lv: "live w i x" and ab: "k \<notin> fst ` set (queue_of w x)"
  shows "\<exists>e w'. pop_key k i oom w = (Inl e, w') \<and>
           (e = KeyNotFound \<or> e = bad_alloc \<and> oom AtClone) \<and> unchanged w w' \<and> objs w' = objs w"
proof (cases "queue_of w x = []")
  case True
  then show ?thesis using pop_key_empty [OF inv lv True] unchanged_refl [OF inv] by auto
next
  case False
  obtain p where ptr: "dataPtr x = Some p" using nonempty_ptr [OF False] by blast
  have p: "pop_key k i oom w = void_result (guarded_call False (pop_key_body k) i x oom w)"
    using False by (simp add: pop_key_def self_live [OF inv lv] empty_queue)
  from call_fails [where mark = False and oom = oom, OF inv lv ptr
      pop_key_contract_absent [OF ab]]
  show ?thesis unfolding p by auto
qed

lemma pop_key_spec:
  assumes inv: "winv w" and lv: "live w i x" and pr: "k \<in> fst ` set (queue_of w x)"
  shows "(\<exists>w'. pop_key k i oom w = (Inl bad_alloc, w') \<and> oom AtClone \<and> unchanged w w' \<and> objs w' = objs w) \<or>
         (\<exists>w'. pop_key k i oom w = (Inr (), w') \<and>
            updated w i False (remove_first_key k (queue_of w x)) w')"
proof -
  have ne: "queue_of w x \<noteq> []" using pr by auto
  obtain p where ptr: "dataPtr x = Some p" using nonempty_ptr [OF ne] by blast
  have p: "pop_key k i oom w = void_result (guarded_call False (pop_key_body k) i x oom w)"
    using ne by (simp add: pop_key_def self_live [OF inv lv] empty_queue)
  from void_call_spec [where mark = False and oom = oom, OF inv lv ptr pop_key_contract [OF pr]]
  show ?thesis unfolding p by blast
qed

lemma move_to_back_empty:
  "winv w \<Longrightarrow> live w i x \<Longrightarrow> queue_of w x = [] \<Longrightarrow>
   move_to_back k i oom w = (Inl KeyNotFound, w)"
  by (simp add: move_to_back_def self_live empty_queue)

lemma move_to_back_absent:
  assumes inv: "winv w" and lv: "live w i x" and ab: "k \<notin> fst ` set (queue_of w x)"
  shows "\<exists>e w'. move_to_back k i oom w = (Inl e, w') \<and>
           (e = KeyNotFound \<or> e = bad_alloc \<and> oom AtClone) \<and> unchanged w w' \<and> objs w' = objs w"
proof (cases "queue_of w x = []")
  case True
  then show ?thesis using move_to_back_empty [OF inv lv True] unchanged_refl [OF inv] by auto
next
  case False
  obtain p where ptr: "dataPtr x = Some p" using nonempty_ptr [OF False] by blast
  have p: "move_to_back k i oom w = void_result (guarded_call False (move_to_back_body k) i x oom w)"
    using False by (simp add: move_to_back_def self_live [OF inv lv] empty_queue)
  from call_fails [where mark = False and oom = oom, OF inv lv ptr
      move_to_back_contract_absent [OF ab]]
  show ?thesis unfolding p by auto
qed

lemma move_to_back_spec:
  assumes inv: "winv w" and lv: "live w i x" and pr: "k \<in> fst ` set (queue_of w x)"
  shows "(\<exists>w'. move_to_back k i oom w = (Inl bad_alloc, w') \<and> oom AtClone \<and> unchanged w w' \<and> objs w' = objs w) \<or>
         (\<exists>w'. move_to_back k i oom w = (Inr (), w') \<and>
            updated w i False (without_key k (queue_of w x) @ with_key k (queue_of w x)) w')"
proof -
  have ne: "queue_of w x \<noteq> []" using pr by auto
  obtain p where ptr: "dataPtr x = Some p" using nonempty_ptr [OF ne] by blast
  have p: "move_to_back k i oom w = void_result (guarded_call False (move_to_back_body k) i x oom w)"
    using ne by (simp add: move_to_back_def self_live [OF inv lv] empty_queue)
  from void_call_spec [where mark = False and oom = oom, OF inv lv ptr move_to_back_contract [OF pr]]
  show ?thesis unfolding p by blast
qed

lemma clear_null:
  "winv w \<Longrightarrow> live w i x \<Longrightarrow> dataPtr x = None \<Longrightarrow> clear i oom w = (Inr (), w)"
  by (simp add: clear_def self_live)

lemma clear_spec:
  assumes inv: "winv w" and lv: "live w i x" and ptr: "dataPtr x = Some p"
  shows "(\<exists>w'. clear i oom w = (Inl bad_alloc, w') \<and> oom AtClone \<and> unchanged w w' \<and> objs w' = objs w) \<or>
         (\<exists>w'. clear i oom w = (Inr (), w') \<and> updated w i False [] w')"
proof -
  have p: "clear i oom w = void_result (guarded_call False clear_body i x oom w)"
    using ptr by (simp add: clear_def self_live [OF inv lv])
  from void_call_spec [where mark = False and oom = oom, OF inv lv ptr clear_contract]
  show ?thesis unfolding p by blast
qed

subsection \<open>The accessors\<close>

lemma pinned_staged:
  assumes inv: "winv w" and lv: "live w i \<lparr>unshareable = True, dataPtr = Some q\<rparr>"
  shows "staged w i \<lparr>unshareable = True, dataPtr = Some q\<rparr> True q w"
proof -
  let ?x = "\<lparr>unshareable = True, dataPtr = Some q\<rparr>"
  have q: "q < length (cells w)" using winv_range [OF inv lv] by simp
  have "\<And>j y. live w j y \<Longrightarrow> j \<noteq> i \<Longrightarrow> dataPtr y \<noteq> Some q"
    using winv_pinned [OF inv lv] by simp
  moreover have "objs w = (objs w)[i := Some ?x]"
    using lv list_update_id [of "objs w" i] by (simp add: live_def)
  ultimately show ?thesis
    unfolding staged_def using q winv_cinv [OF inv] by (simp add: queue_of_def)
qed

lemma write_ref_spec:
  assumes inv: "winv w" and lv: "live w i \<lparr>unshareable = True, dataPtr = Some q\<rparr>"
  shows "updated w i True (entries (write_node n v (cells w ! q))) (write_ref q n v w)"
proof -
  have c: "cinv (write_node n v (cells w ! q))"
    using winv_cinv [OF inv winv_range [OF inv lv]] by (simp add: write_node_cinv)
  from staged_commit [OF pinned_staged [OF inv lv] inv lv c]
  show ?thesis by (auto simp: updated_def write_ref_def)
qed

lemma updated_twice:
  "updated w i m es w1 \<Longrightarrow> updated w1 i m' es' w' \<Longrightarrow> updated w i m' es' w'"
  by (auto simp: updated_def)

lemma accessor_ok:
  assumes inv: "winv w" and lv: "live w i x" and ptr: "dataPtr x = Some p"
    and contract: "\<forall>c. cinv c \<and> entries c = queue_of w x \<longrightarrow> (\<exists>r. rd c = Inr r \<and> R r c)"
  shows "(oom AtClone \<and> guarded_call True (\<lambda>c. (rd c, c)) i x oom w = (Inl bad_alloc, w)) \<or>
         (\<exists>r q w1. guarded_call True (\<lambda>c. (rd c, c)) i x oom w = (Inr (r, q), w1) \<and>
            updated w i True (queue_of w x) w1 \<and>
            live w1 i \<lparr>unshareable = True, dataPtr = Some q\<rparr> \<and>
            R r (cells w1 ! q) \<and> entries (cells w1 ! q) = queue_of w x)"
proof (rule guarded_call_elim [OF inv lv ptr, of oom True "\<lambda>c. (rd c, c)"], goal_cases)
  case 1
  then show ?case by simp
next
  case ran: (2 q w1)
  let ?c = "cells w1 ! q"
  from staged_cell [OF ran(1)] have c: "cinv ?c" "entries ?c = queue_of w x" by auto
  with contract obtain r where r: "rd ?c = Inr r" "R r ?c" by blast
  have g: "guarded_call True (\<lambda>c. (rd c, c)) i x oom w = (Inr (r, q), set_cell q ?c w1)"
    by (simp add: ran(2) r(1) finish_def)
  from staged_commit [OF ran(1) inv lv c(1)] c(2) r(2) g
  show ?case by (auto simp: updated_def)
qed

lemma and_write_spec:
  assumes inv: "winv w" and lv: "live w i x" and ptr: "dataPtr x = Some p"
    and contract: "\<forall>c. cinv c \<and> entries c = queue_of w x \<longrightarrow> (\<exists>r. rd c = Inr r \<and> R r c)"
  shows "(oom AtClone \<and> and_write vo (guarded_call True (\<lambda>c. (rd c, c)) i x oom w)
                          = (Inl bad_alloc, w)) \<or>
         (\<exists>r q w1 w'. guarded_call True (\<lambda>c. (rd c, c)) i x oom w = (Inr (r, q), w1) \<and>
            and_write vo (guarded_call True (\<lambda>c. (rd c, c)) i x oom w) = (Inr (), w') \<and>
            R r (cells w1 ! q) \<and> entries (cells w1 ! q) = queue_of w x \<and>
            updated w i True (queue_of w x) w1 \<and>
            live w1 i \<lparr>unshareable = True, dataPtr = Some q\<rparr> \<and>
            updated w i True
              (case vo of None \<Rightarrow> queue_of w x
               | Some v \<Rightarrow> entries (write_node (fst r) v (cells w1 ! q))) w')"
proof -
  from accessor_ok [OF inv lv ptr contract, of oom]
  consider (a) "oom AtClone" "guarded_call True (\<lambda>c. (rd c, c)) i x oom w = (Inl bad_alloc, w)"
    | (b) r q w1 where "guarded_call True (\<lambda>c. (rd c, c)) i x oom w = (Inr (r, q), w1)"
        "updated w i True (queue_of w x) w1" "live w1 i \<lparr>unshareable = True, dataPtr = Some q\<rparr>"
        "R r (cells w1 ! q)" "entries (cells w1 ! q) = queue_of w x"
    by blast
  then show ?thesis
  proof cases
    case a
    then show ?thesis by (simp add: and_write_def)
  next
    case b
    show ?thesis
    proof (cases vo)
      case None
      then show ?thesis using b by (auto simp: and_write_def)
    next
      case (Some v)
      have w1: "winv w1" using b(2) by (simp add: updated_def)
      from updated_twice [OF b(2) write_ref_spec [OF w1 b(3), of "fst r" v]] b Some
      show ?thesis by (auto simp: and_write_def)
    qed
  qed
qed

lemma front_contract:
  "es0 \<noteq> [] \<Longrightarrow>
   \<forall>c. cinv c \<and> entries c = es0 \<longrightarrow>
     (\<exists>r. front_body c = Inr r \<and> (snd r = hd es0 \<and> r = hd (pair_list c) \<and> pair_list c \<noteq> []))"
proof (intro allI impI, elim conjE)
  fix c :: "('a, 'b) container_t"
  assume a: "es0 \<noteq> []" "cinv c" "entries c = es0"
  then have "pair_list c \<noteq> []" by (auto simp: entries_def)
  from front_body_ok [OF this] a(3) this
  show "\<exists>r. front_body c = Inr r \<and> (snd r = hd es0 \<and> r = hd (pair_list c) \<and> pair_list c \<noteq> [])"
    by auto
qed

lemma back_contract:
  "es0 \<noteq> [] \<Longrightarrow>
   \<forall>c. cinv c \<and> entries c = es0 \<longrightarrow>
     (\<exists>r. back_body c = Inr r \<and> (snd r = last es0 \<and> r \<in> set (pair_list c)))"
proof (intro allI impI, elim conjE)
  fix c :: "('a, 'b) container_t"
  assume a: "es0 \<noteq> []" "cinv c" "entries c = es0"
  then have ne: "pair_list c \<noteq> []" by (auto simp: entries_def)
  from back_body_ok [OF ne] obtain e where
    e: "back_body c = Inr e" "snd e = last (entries c)" "e = last (pair_list c)" by blast
  have "e \<in> set (pair_list c)" using ne e(3) by simp
  with e a(3) show "\<exists>r. back_body c = Inr r \<and> (snd r = last es0 \<and> r \<in> set (pair_list c))"
    by simp
qed

lemma first_contract:
  "k \<in> fst ` set es0 \<Longrightarrow>
   \<forall>c. cinv c \<and> entries c = es0 \<longrightarrow>
     (\<exists>r. first_body k c = Inr r \<and> (snd r = hd (with_key k es0) \<and> r \<in> set (pair_list c)))"
proof (intro allI impI, elim conjE)
  fix c :: "('a, 'b) container_t"
  assume a: "k \<in> fst ` set es0" "cinv c" "entries c = es0"
  from first_body_ok [OF a(2), of k] a(1,3)
  show "\<exists>r. first_body k c = Inr r \<and> (snd r = hd (with_key k es0) \<and> r \<in> set (pair_list c))"
    by simp
qed

lemma last_contract:
  "k \<in> fst ` set es0 \<Longrightarrow>
   \<forall>c. cinv c \<and> entries c = es0 \<longrightarrow>
     (\<exists>r. last_body k c = Inr r \<and> (snd r = last (with_key k es0) \<and> r \<in> set (pair_list c)))"
proof (intro allI impI, elim conjE)
  fix c :: "('a, 'b) container_t"
  assume a: "k \<in> fst ` set es0" "cinv c" "entries c = es0"
  from last_body_ok [OF a(2), of k] a(1,3)
  show "\<exists>r. last_body k c = Inr r \<and> (snd r = last (with_key k es0) \<and> r \<in> set (pair_list c))"
    by simp
qed

lemma first_contract_absent:
  "k \<notin> fst ` set es0 \<Longrightarrow>
   \<forall>c. cinv c \<and> entries c = es0 \<longrightarrow> (first_body k c, c) = (Inl KeyNotFound, c)"
  by (simp add: first_body_absent)

lemma last_contract_absent:
  "k \<notin> fst ` set es0 \<Longrightarrow>
   \<forall>c. cinv c \<and> entries c = es0 \<longrightarrow> (last_body k c, c) = (Inl KeyNotFound, c)"
  by (simp add: last_body_absent)

text \<open>The const overloads.\<close>

lemma front_const_spec:
  assumes "winv w" and "live w i x"
  shows "front_const i w =
    (if queue_of w x = [] then Inl EmptyCollection else Inr (hd (queue_of w x)))"
proof (cases "queue_of w x = []")
  case True
  then show ?thesis by (simp add: front_const_def self_live [OF assms] empty_queue)
next
  case False
  then obtain p where p: "dataPtr x = Some p" using nonempty_ptr by blast
  have "pair_list (cells w ! p) \<noteq> []" using False by (simp add: queue_of_def p entries_def)
  from front_body_ok [OF this] obtain e where
    "front_body (cells w ! p) = Inr e" "snd e = hd (entries (cells w ! p))" by blast
  then show ?thesis
    using False by (simp add: front_const_def self_live [OF assms] empty_queue read_cell_def p queue_of_def)
qed

lemma back_const_spec:
  assumes "winv w" and "live w i x"
  shows "back_const i w =
    (if queue_of w x = [] then Inl EmptyCollection else Inr (last (queue_of w x)))"
proof (cases "queue_of w x = []")
  case True
  then show ?thesis by (simp add: back_const_def self_live [OF assms] empty_queue)
next
  case False
  then obtain p where p: "dataPtr x = Some p" using nonempty_ptr by blast
  have "pair_list (cells w ! p) \<noteq> []" using False by (simp add: queue_of_def p entries_def)
  from back_body_ok [OF this] obtain e where
    "back_body (cells w ! p) = Inr e" "snd e = last (entries (cells w ! p))" by blast
  then show ?thesis
    using False by (simp add: back_const_def self_live [OF assms] empty_queue read_cell_def p queue_of_def)
qed

lemma first_const_spec:
  assumes "winv w" and "live w i x"
  shows "first_const k i w =
    (if k \<in> fst ` set (queue_of w x) then Inr (hd (with_key k (queue_of w x)))
     else Inl KeyNotFound)"
proof (cases "queue_of w x = []")
  case True
  then show ?thesis by (simp add: first_const_def self_live [OF assms] empty_queue)
next
  case False
  then obtain p where p: "dataPtr x = Some p" using nonempty_ptr by blast
  have c: "cinv (cells w ! p)" using winv_cinv [OF assms(1) winv_range [OF assms p]] .
  show ?thesis
  proof (cases "k \<in> fst ` set (queue_of w x)")
    case True
    then have "k \<in> fst ` set (entries (cells w ! p))" by (simp add: queue_of_def p)
    from first_body_ok [OF c this] obtain e where
      "first_body k (cells w ! p) = Inr e" "snd e = hd (with_key k (entries (cells w ! p)))" by blast
    then show ?thesis using False True
      by (simp add: first_const_def self_live [OF assms] empty_queue read_cell_def p queue_of_def)
  next
    case ab: False
    then have "k \<notin> fst ` set (entries (cells w ! p))" by (simp add: queue_of_def p)
    from first_body_absent [OF c this] show ?thesis using False ab
      by (simp add: first_const_def self_live [OF assms] empty_queue read_cell_def p queue_of_def)
  qed
qed

lemma last_const_spec:
  assumes "winv w" and "live w i x"
  shows "last_const k i w =
    (if k \<in> fst ` set (queue_of w x) then Inr (last (with_key k (queue_of w x)))
     else Inl KeyNotFound)"
proof (cases "queue_of w x = []")
  case True
  then show ?thesis by (simp add: last_const_def self_live [OF assms] empty_queue)
next
  case False
  then obtain p where p: "dataPtr x = Some p" using nonempty_ptr by blast
  have c: "cinv (cells w ! p)" using winv_cinv [OF assms(1) winv_range [OF assms p]] .
  show ?thesis
  proof (cases "k \<in> fst ` set (queue_of w x)")
    case True
    then have "k \<in> fst ` set (entries (cells w ! p))" by (simp add: queue_of_def p)
    from last_body_ok [OF c this] obtain e where
      "last_body k (cells w ! p) = Inr e" "snd e = last (with_key k (entries (cells w ! p)))" by blast
    then show ?thesis using False True
      by (simp add: last_const_def self_live [OF assms] empty_queue read_cell_def p queue_of_def)
  next
    case ab: False
    then have "k \<notin> fst ` set (entries (cells w ! p))" by (simp add: queue_of_def p)
    from last_body_absent [OF c this] show ?thesis using False ab
      by (simp add: last_const_def self_live [OF assms] empty_queue read_cell_def p queue_of_def)
  qed
qed

subsection \<open>The mutable accessors as statements\<close>

lemma front_empty:
  "winv w \<Longrightarrow> live w i x \<Longrightarrow> queue_of w x = [] \<Longrightarrow> front i oom w = (Inl EmptyCollection, w)"
  by (simp add: front_def self_live empty_queue)

lemma back_empty:
  "winv w \<Longrightarrow> live w i x \<Longrightarrow> queue_of w x = [] \<Longrightarrow> back_kv i oom w = (Inl EmptyCollection, w)"
  by (simp add: back_kv_def self_live empty_queue)

lemma first_empty:
  "winv w \<Longrightarrow> live w i x \<Longrightarrow> queue_of w x = [] \<Longrightarrow> first k i oom w = (Inl KeyNotFound, w)"
  by (simp add: first_def self_live empty_queue)

lemma last_empty:
  "winv w \<Longrightarrow> live w i x \<Longrightarrow> queue_of w x = [] \<Longrightarrow> last_kv k i oom w = (Inl KeyNotFound, w)"
  by (simp add: last_kv_def self_live empty_queue)

lemma front_spec:
  assumes inv: "winv w" and lv: "live w i x" and ne: "queue_of w x \<noteq> []"
  shows "(oom AtClone \<and> front i oom w = (Inl bad_alloc, w) \<and>
            and_write vo (front i oom w) = (Inl bad_alloc, w)) \<or>
         (\<exists>e q w1 w'. front i oom w = (Inr (e, q), w1) \<and> snd e = hd (queue_of w x) \<and>
            updated w i True (queue_of w x) w1 \<and>
            and_write vo (front i oom w) = (Inr (), w') \<and>
            updated w i True
              (case vo of None \<Rightarrow> queue_of w x
               | Some v \<Rightarrow> (fst (hd (queue_of w x)), v) # tl (queue_of w x)) w')"
proof -
  obtain p where ptr: "dataPtr x = Some p" using nonempty_ptr [OF ne] by blast
  have f: "front i oom w = guarded_call True (\<lambda>c. (front_body c, c)) i x oom w"
    using ne by (simp add: front_def self_live [OF inv lv] empty_queue)
  from and_write_spec [OF inv lv ptr front_contract [OF ne], of oom vo]
  consider (a) "oom AtClone" "and_write vo (front i oom w) = (Inl bad_alloc, w)"
    | (b) r q w1 w' where "front i oom w = (Inr (r, q), w1)"
        "and_write vo (front i oom w) = (Inr (), w')"
        "snd r = hd (queue_of w x)" "r = hd (pair_list (cells w1 ! q))"
        "pair_list (cells w1 ! q) \<noteq> []" "entries (cells w1 ! q) = queue_of w x"
        "updated w i True (queue_of w x) w1"
        "live w1 i \<lparr>unshareable = True, dataPtr = Some q\<rparr>"
        "updated w i True
              (case vo of None \<Rightarrow> queue_of w x
               | Some v \<Rightarrow> entries (write_node (fst r) v (cells w1 ! q))) w'"
    unfolding f by blast
  then show ?thesis
  proof cases
    case a
    from accessor_ok [OF inv lv ptr front_contract [OF ne], of oom] a
    have "front i oom w = (Inl bad_alloc, w)" unfolding f by (auto simp: and_write_def split: option.splits)
    with a show ?thesis by simp
  next
    case b
    have w1: "winv w1" using b(7) by (simp add: updated_def)
    have d: "distinct (map fst (pair_list (cells w1 ! q)))"
      using cinv_distinct [OF winv_cinv [OF w1 winv_range [OF w1 b(8)]]] by simp
    have "\<And>v. entries (write_node (fst r) v (cells w1 ! q))
              = (fst (hd (queue_of w x)), v) # tl (queue_of w x)"
      using write_node_front [OF d b(5)] b(4,6) by simp
    with b show ?thesis by (cases vo) auto
  qed
qed

lemma keyed_write:
  assumes "updated w i True
              (case vo of None \<Rightarrow> q0 | Some v \<Rightarrow> entries (write_node n v c)) w'"
    and "entries c = q0"
  shows "\<exists>es'. map fst es' = map fst q0 \<and> (vo = None \<longrightarrow> es' = q0) \<and> updated w i True es' w'"
  using assms write_node_entries_keys [of n _ c] by (cases vo) auto

lemma back_spec:
  assumes inv: "winv w" and lv: "live w i x" and ne: "queue_of w x \<noteq> []"
  shows "(oom AtClone \<and> back_kv i oom w = (Inl bad_alloc, w) \<and>
            and_write vo (back_kv i oom w) = (Inl bad_alloc, w)) \<or>
         (\<exists>e q w1 w' es'. back_kv i oom w = (Inr (e, q), w1) \<and> snd e = last (queue_of w x) \<and>
            updated w i True (queue_of w x) w1 \<and>
            and_write vo (back_kv i oom w) = (Inr (), w') \<and>
            map fst es' = map fst (queue_of w x) \<and> (vo = None \<longrightarrow> es' = queue_of w x) \<and>
            updated w i True es' w')"
proof -
  obtain p where ptr: "dataPtr x = Some p" using nonempty_ptr [OF ne] by blast
  have f: "back_kv i oom w = guarded_call True (\<lambda>c. (back_body c, c)) i x oom w"
    using ne by (simp add: back_kv_def self_live [OF inv lv] empty_queue)
  from and_write_spec [OF inv lv ptr back_contract [OF ne], of oom vo]
  consider (a) "oom AtClone" "and_write vo (back_kv i oom w) = (Inl bad_alloc, w)"
    | (b) r q w1 w' where "back_kv i oom w = (Inr (r, q), w1)"
        "and_write vo (back_kv i oom w) = (Inr (), w')"
        "snd r = last (queue_of w x)" "entries (cells w1 ! q) = queue_of w x"
        "updated w i True (queue_of w x) w1"
        "updated w i True
              (case vo of None \<Rightarrow> queue_of w x
               | Some v \<Rightarrow> entries (write_node (fst r) v (cells w1 ! q))) w'"
    unfolding f by blast
  then show ?thesis
  proof cases
    case a
    from accessor_ok [OF inv lv ptr back_contract [OF ne], of oom] a
    have "back_kv i oom w = (Inl bad_alloc, w)" unfolding f by (auto simp: and_write_def split: option.splits)
    with a show ?thesis by simp
  next
    case b
    from keyed_write [OF b(6,4)] b(1,2,3,5) show ?thesis by blast
  qed
qed

lemma first_absent:
  assumes inv: "winv w" and lv: "live w i x" and ab: "k \<notin> fst ` set (queue_of w x)"
  shows "\<exists>e w'. first k i oom w = (Inl e, w') \<and>
           (e = KeyNotFound \<or> e = bad_alloc \<and> oom AtClone) \<and> unchanged w w' \<and> objs w' = objs w"
proof (cases "queue_of w x = []")
  case True
  then show ?thesis using first_empty [OF inv lv True] unchanged_refl [OF inv] by auto
next
  case False
  obtain p where ptr: "dataPtr x = Some p" using nonempty_ptr [OF False] by blast
  have p: "first k i oom w = guarded_call True (\<lambda>c. (first_body k c, c)) i x oom w"
    using False by (simp add: first_def self_live [OF inv lv] empty_queue)
  from call_fails [where mark = True and oom = oom, OF inv lv ptr first_contract_absent [OF ab]]
  show ?thesis unfolding p by auto
qed

lemma last_absent:
  assumes inv: "winv w" and lv: "live w i x" and ab: "k \<notin> fst ` set (queue_of w x)"
  shows "\<exists>e w'. last_kv k i oom w = (Inl e, w') \<and>
           (e = KeyNotFound \<or> e = bad_alloc \<and> oom AtClone) \<and> unchanged w w' \<and> objs w' = objs w"
proof (cases "queue_of w x = []")
  case True
  then show ?thesis using last_empty [OF inv lv True] unchanged_refl [OF inv] by auto
next
  case False
  obtain p where ptr: "dataPtr x = Some p" using nonempty_ptr [OF False] by blast
  have p: "last_kv k i oom w = guarded_call True (\<lambda>c. (last_body k c, c)) i x oom w"
    using False by (simp add: last_kv_def self_live [OF inv lv] empty_queue)
  from call_fails [where mark = True and oom = oom, OF inv lv ptr last_contract_absent [OF ab]]
  show ?thesis unfolding p by auto
qed

lemma first_spec:
  assumes inv: "winv w" and lv: "live w i x" and pr: "k \<in> fst ` set (queue_of w x)"
  shows "(oom AtClone \<and> first k i oom w = (Inl bad_alloc, w) \<and>
            and_write vo (first k i oom w) = (Inl bad_alloc, w)) \<or>
         (\<exists>e q w1 w' es'. first k i oom w = (Inr (e, q), w1) \<and>
            snd e = hd (with_key k (queue_of w x)) \<and>
            updated w i True (queue_of w x) w1 \<and>
            and_write vo (first k i oom w) = (Inr (), w') \<and>
            map fst es' = map fst (queue_of w x) \<and> (vo = None \<longrightarrow> es' = queue_of w x) \<and>
            updated w i True es' w')"
proof -
  have ne: "queue_of w x \<noteq> []" using pr by auto
  obtain p where ptr: "dataPtr x = Some p" using nonempty_ptr [OF ne] by blast
  have f: "first k i oom w = guarded_call True (\<lambda>c. (first_body k c, c)) i x oom w"
    using ne by (simp add: first_def self_live [OF inv lv] empty_queue)
  from and_write_spec [OF inv lv ptr first_contract [OF pr], of oom vo]
  consider (a) "oom AtClone" "and_write vo (first k i oom w) = (Inl bad_alloc, w)"
    | (b) r q w1 w' where "first k i oom w = (Inr (r, q), w1)"
        "and_write vo (first k i oom w) = (Inr (), w')"
        "snd r = hd (with_key k (queue_of w x))" "entries (cells w1 ! q) = queue_of w x"
        "updated w i True (queue_of w x) w1"
        "updated w i True
              (case vo of None \<Rightarrow> queue_of w x
               | Some v \<Rightarrow> entries (write_node (fst r) v (cells w1 ! q))) w'"
    unfolding f by blast
  then show ?thesis
  proof cases
    case a
    from accessor_ok [OF inv lv ptr first_contract [OF pr], of oom] a
    have "first k i oom w = (Inl bad_alloc, w)" unfolding f by (auto simp: and_write_def split: option.splits)
    with a show ?thesis by simp
  next
    case b
    from keyed_write [OF b(6,4)] b(1,2,3,5) show ?thesis by blast
  qed
qed

lemma last_spec:
  assumes inv: "winv w" and lv: "live w i x" and pr: "k \<in> fst ` set (queue_of w x)"
  shows "(oom AtClone \<and> last_kv k i oom w = (Inl bad_alloc, w) \<and>
            and_write vo (last_kv k i oom w) = (Inl bad_alloc, w)) \<or>
         (\<exists>e q w1 w' es'. last_kv k i oom w = (Inr (e, q), w1) \<and>
            snd e = last (with_key k (queue_of w x)) \<and>
            updated w i True (queue_of w x) w1 \<and>
            and_write vo (last_kv k i oom w) = (Inr (), w') \<and>
            map fst es' = map fst (queue_of w x) \<and> (vo = None \<longrightarrow> es' = queue_of w x) \<and>
            updated w i True es' w')"
proof -
  have ne: "queue_of w x \<noteq> []" using pr by auto
  obtain p where ptr: "dataPtr x = Some p" using nonempty_ptr [OF ne] by blast
  have f: "last_kv k i oom w = guarded_call True (\<lambda>c. (last_body k c, c)) i x oom w"
    using ne by (simp add: last_kv_def self_live [OF inv lv] empty_queue)
  from and_write_spec [OF inv lv ptr last_contract [OF pr], of oom vo]
  consider (a) "oom AtClone" "and_write vo (last_kv k i oom w) = (Inl bad_alloc, w)"
    | (b) r q w1 w' where "last_kv k i oom w = (Inr (r, q), w1)"
        "and_write vo (last_kv k i oom w) = (Inr (), w')"
        "snd r = last (with_key k (queue_of w x))" "entries (cells w1 ! q) = queue_of w x"
        "updated w i True (queue_of w x) w1"
        "updated w i True
              (case vo of None \<Rightarrow> queue_of w x
               | Some v \<Rightarrow> entries (write_node (fst r) v (cells w1 ! q))) w'"
    unfolding f by blast
  then show ?thesis
  proof cases
    case a
    from accessor_ok [OF inv lv ptr last_contract [OF pr], of oom] a
    have "last_kv k i oom w = (Inl bad_alloc, w)" unfolding f by (auto simp: and_write_def split: option.splits)
    with a show ?thesis by simp
  next
    case b
    from keyed_write [OF b(6,4)] b(1,2,3,5) show ?thesis by blast
  qed
qed

subsection \<open>Construction, assignment, destruction\<close>

lemma winvI:
  assumes "\<And>j y p. live w j y \<Longrightarrow> dataPtr y = Some p \<Longrightarrow> p < length (cells w)"
    and "\<And>a xa pa b xb. live w a xa \<Longrightarrow> unshareable xa \<Longrightarrow> dataPtr xa = Some pa \<Longrightarrow>
           live w b xb \<Longrightarrow> b \<noteq> a \<Longrightarrow> dataPtr xb \<noteq> Some pa"
    and "\<And>p. p < length (cells w) \<Longrightarrow> cinv (cells w ! p)"
  shows "winv w"
  unfolding winv_def using assms by blast

lemma live_append:
  "live (w\<lparr>objs := objs w @ [Some z]\<rparr>) j y \<longleftrightarrow> live w j y \<or> (j = length (objs w) \<and> y = z)"
  by (auto simp: live_def nth_append)

lemma live_update:
  "live (w\<lparr>objs := (objs w)[i := ob]\<rparr>) j y \<longleftrightarrow>
     j < length (objs w) \<and> (if j = i then ob = Some y else objs w ! j = Some y)"
  by (auto simp: live_def)

lemma live_cells [simp]: "live (w\<lparr>cells := cs\<rparr>) j y = live w j y"
  by (simp add: live_def)

lemma live_bound: "live w j y \<Longrightarrow> j < length (objs w)"
  by (simp add: live_def)

lemma snapshot_nth:
  "j < length (objs w) \<Longrightarrow> snapshot w ! j = map_option (snap_obj w) (objs w ! j)"
  by (simp add: snapshot_def)

lemma queue_of_append_cells:
  "winv w \<Longrightarrow> live w j y \<Longrightarrow> queue_of (w\<lparr>cells := cells w @ ex, objs := os\<rparr>) y = queue_of w y"
  using winv_range [of w j y] by (cases "dataPtr y") (auto simp: queue_of_def nth_append)

lemma queue_of_objs [simp]: "queue_of (w\<lparr>objs := os\<rparr>) y = queue_of w y"
  by (cases "dataPtr y") (simp_all add: queue_of_def)

lemma snap_obj_objs [simp]: "snap_obj (w\<lparr>objs := os\<rparr>) = snap_obj w"
  by (rule ext) (simp add: snap_obj_def)

lemma snap_obj_same:
  "queue_of w' y = queue_of w y \<Longrightarrow> snap_obj w' y = snap_obj w y"
  by (simp add: snap_obj_def)

text \<open>Allocating a cell and constructing an object that alone points at it.\<close>

lemma fresh_object:
  assumes inv: "winv w" and c: "cinv c"
  defines "w' \<equiv> w\<lparr>cells := cells w @ [c],
                    objs := objs w @ [Some \<lparr>unshareable = False, dataPtr = Some (length (cells w))\<rparr>]\<rparr>"
  shows "winv w' \<and> snapshot w' = snapshot w @ [Some (False, entries c)]"
proof -
  let ?z = "\<lparr>unshareable = False, dataPtr = Some (length (cells w))\<rparr>"
  have lv: "\<And>j y. live w' j y \<longleftrightarrow> live w j y \<or> (j = length (objs w) \<and> y = ?z)"
    by (auto simp: live_def w'_def nth_append)
  have ce: "cells w' = cells w @ [c]" by (simp add: w'_def)
  have 1: "winv w'"
  proof (rule winvI)
    fix j y p assume "live w' j y" "dataPtr y = Some p"
    then show "p < length (cells w')"
      using winv_range [OF inv, of j y p] by (auto simp: lv ce)
  next
    fix a xa pa b xb
    assume h: "live w' a xa" "unshareable xa" "dataPtr xa = Some pa" "live w' b xb" "b \<noteq> a"
    from h(1,2) have a: "live w a xa" by (auto simp: lv)
    have "pa < length (cells w)" by (rule winv_range [OF inv a h(3)])
    then show "dataPtr xb \<noteq> Some pa"
      using h(4) winv_pinned [OF inv a h(2,3) _ h(5)] by (auto simp: lv)
  next
    fix p assume "p < length (cells w')"
    then show "cinv (cells w' ! p)" using winv_cinv [OF inv, of p] c by (auto simp: ce nth_append)
  qed
  have 2: "snapshot w' = snapshot w @ [Some (False, entries c)]"
  proof (rule nth_equalityI)
    show "length (snapshot w') = length (snapshot w @ [Some (False, entries c)])"
      by (simp add: w'_def)
  next
    fix j assume "j < length (snapshot w')"
    then have j: "j \<le> length (objs w)" by (simp add: w'_def)
    show "snapshot w' ! j = (snapshot w @ [Some (False, entries c)]) ! j"
    proof (cases "j = length (objs w)")
      case True
      then show ?thesis by (simp add: snapshot_def w'_def nth_append snap_obj_def queue_of_def)
    next
      case False
      with j have jl: "j < length (objs w)" by simp
      show ?thesis
      proof (cases "objs w ! j")
        case None
        then show ?thesis using jl by (simp add: snapshot_def w'_def nth_append)
      next
        case (Some y)
        then have "live w j y" using jl by (simp add: live_def)
        from queue_of_append_cells [OF inv this] have "queue_of w' y = queue_of w y"
          by (simp add: w'_def)
        then show ?thesis using jl Some by (simp add: snapshot_def w'_def nth_append snap_obj_def)
      qed
    qed
  qed
  from 1 2 show ?thesis by simp
qed

lemma ctor_spec:
  assumes inv: "winv w"
  shows "(oom AtMakeShared \<and> ctor oom w = (Inl bad_alloc, w)) \<or>
         (\<exists>w'. ctor oom w = (Inr (length (objs w)), w') \<and> winv w' \<and>
            snapshot w' = snapshot w @ [Some (False, [])] \<and>
            live w' (length (objs w)) \<lparr>unshareable = False, dataPtr = Some (length (cells w))\<rparr>)"
proof (cases "oom AtMakeShared")
  case True
  then show ?thesis by (simp add: ctor_def make_shared_empty_def)
next
  case False
  then have "ctor oom w = (Inr (length (objs w)),
      w\<lparr>cells := cells w @ [empty_container],
        objs := objs w @ [Some \<lparr>unshareable = False, dataPtr = Some (length (cells w))\<rparr>]\<rparr>)"
    by (simp add: ctor_def make_shared_empty_def new_obj_def)
  then show ?thesis using fresh_object [OF inv cinv_empty] by (auto simp: live_def)
qed

text \<open>Constructing an object that shares the cell of an unpinned one.\<close>

lemma shared_object:
  assumes inv: "winv w" and s: "live w s y" and np: "\<not> unshareable y"
  defines "w' \<equiv> w\<lparr>objs := objs w @ [Some \<lparr>unshareable = False, dataPtr = dataPtr y\<rparr>]\<rparr>"
  shows "winv w' \<and> snapshot w' = snapshot w @ [Some (False, queue_of w y)]"
proof -
  let ?z = "\<lparr>unshareable = False, dataPtr = dataPtr y\<rparr>"
  have lv: "\<And>j y. live w' j y \<longleftrightarrow> live w j y \<or> (j = length (objs w) \<and> y = ?z)"
    by (auto simp: live_def w'_def nth_append)
  have ce: "cells w' = cells w" by (simp add: w'_def)
  have 1: "winv w'"
  proof (rule winvI)
    fix j y' p assume "live w' j y'" "dataPtr y' = Some p"
    then show "p < length (cells w')"
      using winv_range [OF inv, of j y' p] winv_range [OF inv s, of p] by (auto simp: lv ce)
  next
    fix a xa pa b xb
    assume h: "live w' a xa" "unshareable xa" "dataPtr xa = Some pa" "live w' b xb" "b \<noteq> a"
    from h(1,2) have a: "live w a xa" by (auto simp: lv)
    have as: "a \<noteq> s" using a s np h(2) by (auto simp: live_def)
    show "dataPtr xb \<noteq> Some pa"
    proof (cases "b = length (objs w)")
      case True
      with h(4) have "xb = ?z" using live_bound [of w b xb] by (auto simp: lv)
      then show ?thesis using winv_pinned [OF inv a h(2,3) s] as by auto
    next
      case False
      with h(4) have "live w b xb" by (auto simp: lv)
      then show ?thesis using winv_pinned [OF inv a h(2,3) _ h(5)] by simp
    qed
  next
    fix p assume "p < length (cells w')"
    then show "cinv (cells w' ! p)" using winv_cinv [OF inv, of p] by (simp add: ce)
  qed
  have 2: "snapshot w' = snapshot w @ [Some (False, queue_of w y)]"
    by (simp add: snapshot_def w'_def) (simp add: snap_obj_def queue_of_def)
  from 1 2 show ?thesis by simp
qed

lemma copy_ctor_spec:
  assumes inv: "winv w" and s: "live w s y"
  shows "(unshareable y \<and> dataPtr y = None \<and> copy_ctor s oom w = (Inl undefined_behaviour, w)) \<or>
         (unshareable y \<and> dataPtr y \<noteq> None \<and> oom AtClone \<and> copy_ctor s oom w = (Inl bad_alloc, w)) \<or>
         (\<exists>w' q. copy_ctor s oom w = (Inr (length (objs w)), w') \<and> winv w' \<and>
            snapshot w' = snapshot w @ [Some (False, queue_of w y)] \<and>
            live w' (length (objs w)) \<lparr>unshareable = False, dataPtr = q\<rparr> \<and>
            (unshareable y \<longrightarrow> q = Some (length (cells w)) \<and> length (cells w') = Suc (length (cells w))) \<and>
            (\<not> unshareable y \<longrightarrow> q = dataPtr y \<and> cells w' = cells w) \<and>
            (\<forall>j<length (objs w). objs w' ! j = objs w ! j))"
proof (cases "unshareable y")
  case False
  then have "copy_ctor s oom w = (Inr (length (objs w)),
      w\<lparr>objs := objs w @ [Some \<lparr>unshareable = False, dataPtr = dataPtr y\<rparr>]\<rparr>)"
    by (simp add: copy_ctor_def self_live [OF inv s] new_obj_def)
  then show ?thesis using shared_object [OF inv s False] False
    by (auto simp: live_def nth_append)
next
  case True
  show ?thesis
  proof (cases "dataPtr y")
    case None
    then show ?thesis using True by (simp add: copy_ctor_def self_live [OF inv s])
  next
    case (Some p)
    show ?thesis
    proof (cases "oom AtClone")
      case oom: True
      then show ?thesis using True Some
        by (simp add: copy_ctor_def self_live [OF inv s] make_shared_copy_def)
    next
      case False
      then have "copy_ctor s oom w = (Inr (length (objs w)),
          w\<lparr>cells := cells w @ [container_copy (cells w ! p)],
            objs := objs w @ [Some \<lparr>unshareable = False, dataPtr = Some (length (cells w))\<rparr>]\<rparr>)"
        using True Some
        by (simp add: copy_ctor_def self_live [OF inv s] make_shared_copy_def new_obj_def)
      then show ?thesis
        using fresh_object [OF inv container_copy_cinv [of "cells w ! p"]] True Some
        by (auto simp: live_def nth_append container_copy_entries queue_of_def)
    qed
  qed
qed

lemma winv_replace:
  assumes inv: "winv w" and i: "i < length (objs w)"
    and ce: "cells w' = cells w @ ex" and ex: "\<forall>c\<in>set ex. cinv c"
    and ob: "objs w' = (objs w)[i := ob]"
    and fit: "fits w (length (cells w')) i ob"
  shows "winv w'"
proof (rule winvI)
  have lvo: "\<And>j y. live w' j y \<Longrightarrow> j \<noteq> i \<Longrightarrow> live w j y"
    by (auto simp: live_def ob)
  have lvi: "\<And>y. live w' i y \<Longrightarrow> ob = Some y"
    using i by (auto simp: live_def ob)
  {
    fix j y p assume h: "live w' j y" "dataPtr y = Some p"
    show "p < length (cells w')"
    proof (cases "j = i")
      case True
      with h have "ob = Some y" using lvi by simp
      with h(2) fit show ?thesis by (auto simp: fits_def)
    next
      case False
      with h have "live w j y" using lvo by simp
      from winv_range [OF inv this h(2)] show ?thesis by (simp add: ce)
    qed
  next
    fix a xa pa b xb
    assume h: "live w' a xa" "unshareable xa" "dataPtr xa = Some pa" "live w' b xb" "b \<noteq> a"
    show "dataPtr xb \<noteq> Some pa"
    proof (cases "a = i")
      case True
      with h have oa: "ob = Some xa" and b: "live w b xb" "b \<noteq> i" using lvi lvo by auto
      show ?thesis using fit oa h(2,3) b unfolding fits_def by blast
    next
      case False
      with h have a: "live w a xa" using lvo by simp
      show ?thesis
      proof (cases "b = i")
        case True
        with h have obb: "ob = Some xb" using lvi by simp
        show ?thesis using fit obb a False h(2,3) unfolding fits_def by blast
      next
        case bi: False
        with h have "live w b xb" using lvo by simp
        then show ?thesis using winv_pinned [OF inv a h(2,3) _ h(5)] by simp
      qed
    qed
  next
    fix p assume "p < length (cells w')"
    then show "cinv (cells w' ! p)"
      using winv_cinv [OF inv, of p] ex by (auto simp: ce nth_append)
  }
qed

lemma queue_of_extend:
  "winv w \<Longrightarrow> live w j y \<Longrightarrow> cells w' = cells w @ ex \<Longrightarrow> queue_of w' y = queue_of w y"
  using winv_range [of w j y] by (cases "dataPtr y") (auto simp: queue_of_def nth_append)

lemma snapshot_replace:
  assumes inv: "winv w" and i: "i < length (objs w)"
    and ce: "cells w' = cells w @ ex" and ob: "objs w' = (objs w)[i := ob]"
  shows "snapshot w' = (snapshot w)[i := map_option (snap_obj w') ob]"
proof (rule nth_equalityI)
  show "length (snapshot w') = length ((snapshot w)[i := map_option (snap_obj w') ob])"
    by (simp add: ob)
next
  fix j assume "j < length (snapshot w')"
  then have j: "j < length (objs w)" by (simp add: ob)
  show "snapshot w' ! j = (snapshot w)[i := map_option (snap_obj w') ob] ! j"
  proof (cases "j = i")
    case True
    then show ?thesis using j by (simp add: snapshot_def ob)
  next
    case False
    show ?thesis
    proof (cases "objs w ! j")
      case None
      then show ?thesis using j False by (simp add: snapshot_def ob)
    next
      case (Some y)
      then have "live w j y" using j by (simp add: live_def)
      from queue_of_extend [OF inv this ce] show ?thesis
        using j False Some by (simp add: snapshot_def ob snap_obj_def)
    qed
  qed
qed

lemma winv_append:
  assumes inv: "winv w"
    and ce: "cells w' = cells w @ ex" and ex: "\<forall>c\<in>set ex. cinv c"
    and ob: "objs w' = objs w @ [ob]"
    and fit: "fits w (length (cells w')) (length (objs w)) ob"
  shows "winv w'"
proof -
  let ?w1 = "w\<lparr>objs := objs w @ [None]\<rparr>"
  have lv1: "\<And>j y. live ?w1 j y \<longleftrightarrow> live w j y" by (auto simp: live_def nth_append)
  have 1: "winv ?w1" using inv unfolding winv_def lv1 by simp
  have 2: "fits ?w1 (length (cells w')) (length (objs w)) ob"
    using fit unfolding fits_def lv1 .
  show ?thesis
    by (rule winv_replace [OF 1 _ _ ex _ 2]) (simp_all add: ce ob)
qed

lemma snapshot_append:
  assumes inv: "winv w" and ce: "cells w' = cells w @ ex" and ob: "objs w' = objs w @ [ob]"
  shows "snapshot w' = snapshot w @ [map_option (snap_obj w') ob]"
proof -
  let ?w1 = "w\<lparr>objs := objs w @ [None]\<rparr>"
  have lv1: "\<And>j y. live ?w1 j y \<longleftrightarrow> live w j y" by (auto simp: live_def nth_append)
  have 1: "winv ?w1" using inv unfolding winv_def lv1 by simp
  have "snapshot w' = (snapshot ?w1)[length (objs w) := map_option (snap_obj w') ob]"
    by (rule snapshot_replace [OF 1, where ex = ex]) (simp_all add: ce ob)
  moreover have "snapshot ?w1 = snapshot w @ [None]" by (simp add: snapshot_def)
  moreover have "(snapshot w @ [None])[length (snapshot w) := map_option (snap_obj w') ob]
      = snapshot w @ [map_option (snap_obj w') ob]" by (rule list_update_length)
  ultimately show ?thesis by simp
qed

lemma fits_None [simp]: "fits w n i None"
  by (simp add: fits_def)

lemma fits_null [simp]: "dataPtr z = None \<Longrightarrow> fits w n i (Some z)"
  by (simp add: fits_def)

lemma fits_fresh:
  "winv w \<Longrightarrow> length (cells w) < n \<Longrightarrow> fits w n i (Some \<lparr>unshareable = u, dataPtr = Some (length (cells w))\<rparr>)"
  using winv_range [of w] by (fastforce simp: fits_def)

lemma fits_shared:
  assumes inv: "winv w" and s: "live w s y" and np: "\<not> unshareable y" and n: "length (cells w) \<le> n"
  shows "fits w n i (Some \<lparr>unshareable = False, dataPtr = dataPtr y\<rparr>)"
  unfolding fits_def
proof (intro allI impI conjI)
  fix z q assume z: "Some \<lparr>unshareable = False, dataPtr = dataPtr y\<rparr> = Some z" "dataPtr z = Some q"
  then have q: "dataPtr y = Some q" by auto
  show "q < n" using winv_range [OF inv s q] n by simp
  fix j y' assume h: "live w j y'" "j \<noteq> i" "dataPtr y' = Some q"
  show "\<not> unshareable z" using z by auto
  show "\<not> unshareable y'"
  proof
    assume u: "unshareable y'"
    have "j \<noteq> s" using u np h(1) s by (auto simp: live_def)
    then show False using winv_pinned [OF inv h(1) u h(3) s] q by simp
  qed
qed

subsection \<open>move construction, destruction\<close>

lemma dtor_spec:
  assumes inv: "winv w" and lv: "live w i x"
  shows "\<exists>w'. dtor i w = (Inr (), w') \<and> winv w' \<and> snapshot w' = (snapshot w)[i := None] \<and>
           objs w' = (objs w)[i := None]"
proof -
  let ?w' = "w\<lparr>objs := (objs w)[i := None]\<rparr>"
  have "dtor i w = (Inr (), ?w')" by (simp add: dtor_def self_live [OF inv lv])
  moreover have "winv ?w'"
    by (rule winv_replace [OF inv live_bound [OF lv], where ex = "[]" and ob = None]) simp_all
  moreover have "snapshot ?w' = (snapshot w)[i := None]"
    using snapshot_replace [OF inv live_bound [OF lv], where ex = "[]" and ob = None and w' = ?w']
    by simp
  ultimately show ?thesis by simp
qed

lemma move_ctor_spec:
  assumes inv: "winv w" and s: "live w s y"
  shows "\<exists>w'. move_ctor s w = (Inr (length (objs w)), w') \<and> winv w' \<and>
           snapshot w' = (snapshot w)[s := Some (unshareable y, [])]
                           @ [Some (unshareable y, queue_of w y)] \<and>
           objs w' = (objs w)[s := Some (y\<lparr>dataPtr := None\<rparr>)]
                       @ [Some \<lparr>unshareable = unshareable y, dataPtr = dataPtr y\<rparr>]"
proof -
  let ?w1 = "set_obj s (y\<lparr>dataPtr := None\<rparr>) w"
  let ?z = "\<lparr>unshareable = unshareable y, dataPtr = dataPtr y\<rparr>"
  let ?w' = "?w1\<lparr>objs := objs ?w1 @ [Some ?z]\<rparr>"
  have sl: "s < length (objs w)" by (rule live_bound [OF s])
  have r: "move_ctor s w = (Inr (length (objs w)), ?w')"
    by (simp add: move_ctor_def self_live [OF inv s] new_obj_def set_obj_def)
  have 1: "winv ?w1"
    by (rule winv_replace [OF inv sl, where ex = "[]"]) (auto simp: set_obj_def fits_def)
  have lv1: "\<And>j y'. live ?w1 j y' \<longleftrightarrow>
      j < length (objs w) \<and> (if j = s then y' = y\<lparr>dataPtr := None\<rparr> else objs w ! j = Some y')"
    by (auto simp: live_def set_obj_def)
  have f: "fits ?w1 (length (cells ?w')) (length (objs ?w1)) (Some ?z)"
    unfolding fits_def
  proof (intro allI impI conjI)
    fix z q assume z: "Some ?z = Some z" "dataPtr z = Some q"
    then have q: "dataPtr y = Some q" by auto
    show "q < length (cells ?w')" using winv_range [OF inv s q] by (simp add: set_obj_def)
    fix j y' assume h: "live ?w1 j y'" "j \<noteq> length (objs ?w1)" "dataPtr y' = Some q"
    from h(1) have hh: "j < length (objs w) \<and>
        (if j = s then y' = y\<lparr>dataPtr := None\<rparr> else objs w ! j = Some y')"
      unfolding lv1 .
    have js: "j \<noteq> s" using hh h(3) by auto
    have j: "live w j y'" using hh js by (simp add: live_def)
    show "\<not> unshareable y'" using winv_pinned [OF inv j _ h(3) s] js q by auto
    show "\<not> unshareable z" using winv_pinned [OF inv s _ q j js] h(3) z by auto
  qed
  have 2: "winv ?w'"
    by (rule winv_append [OF 1 _ _ _ f, where ex = "[]"]) simp_all
  have q1: "queue_of ?w' ?z = queue_of w y"
    by (simp add: queue_of_def set_obj_def split: option.splits)
  have "snapshot ?w1 = (snapshot w)[s := Some (unshareable y, [])]"
    using snapshot_replace [OF inv sl, where ex = "[]" and w' = ?w1
        and ob = "Some (y\<lparr>dataPtr := None\<rparr>)"]
    by (simp add: set_obj_def snap_obj_def queue_of_def)
  moreover have "snapshot ?w' = snapshot ?w1 @ [Some (unshareable y, queue_of w y)]"
    using snapshot_append [OF 1, where ex = "[]" and w' = ?w' and ob = "Some ?z"] q1
    by (simp add: snap_obj_def)
  ultimately show ?thesis using r 2 by (simp add: set_obj_def)
qed

subsection \<open>assignment\<close>

lemma operator_assign_spec:
  assumes inv: "winv w" and t: "live w t x" and s: "live w s y"
  shows "(unshareable y \<and> dataPtr y = None \<and>
            operator_assign t s oom w = (Inl undefined_behaviour, w)) \<or>
         (unshareable y \<and> dataPtr y \<noteq> None \<and> oom AtClone \<and>
            operator_assign t s oom w = (Inl bad_alloc, w)) \<or>
         (\<exists>w' q. operator_assign t s oom w = (Inr (), w') \<and> winv w' \<and>
            snapshot w' = (snapshot w)[t := Some (False, queue_of w y)] \<and>
            objs w' = (objs w)[t := Some \<lparr>unshareable = False, dataPtr = q\<rparr>] \<and>
            (unshareable y \<longrightarrow> q = Some (length (cells w))) \<and>
            (\<not> unshareable y \<longrightarrow> q = dataPtr y))"
proof (cases "unshareable y")
  case False
  let ?z = "\<lparr>unshareable = False, dataPtr = dataPtr y\<rparr>"
  let ?w' = "set_obj t ?z w"
  have r: "operator_assign t s oom w = (Inr (), ?w')"
    using False by (simp add: operator_assign_def self_live [OF inv t] self_live [OF inv s])
  have 1: "winv ?w'"
    by (rule winv_replace [OF inv live_bound [OF t], where ex = "[]" and ob = "Some ?z"])
      (simp_all add: set_obj_def fits_shared [OF inv s False])
  have "snapshot ?w' = (snapshot w)[t := Some (False, queue_of w y)]"
    using snapshot_replace [OF inv live_bound [OF t], where ex = "[]" and w' = ?w' and ob = "Some ?z"]
    by (simp add: set_obj_def snap_obj_def queue_of_def)
  with r 1 False show ?thesis by (simp add: set_obj_def)
next
  case True
  show ?thesis
  proof (cases "dataPtr y")
    case None
    then show ?thesis using True
      by (simp add: operator_assign_def self_live [OF inv t] self_live [OF inv s])
  next
    case (Some p)
    show ?thesis
    proof (cases "oom AtClone")
      case oom: True
      then show ?thesis using True Some
        by (simp add: operator_assign_def self_live [OF inv t] self_live [OF inv s]
            make_shared_copy_def)
    next
      case False
      let ?z = "\<lparr>unshareable = False, dataPtr = Some (length (cells w))\<rparr>"
      let ?w' = "set_obj t ?z (w\<lparr>cells := cells w @ [container_copy (cells w ! p)]\<rparr>)"
      have r: "operator_assign t s oom w = (Inr (), ?w')"
        using True Some False
        by (simp add: operator_assign_def self_live [OF inv t] self_live [OF inv s]
            make_shared_copy_def)
      have 1: "winv ?w'"
        by (rule winv_replace [OF inv live_bound [OF t],
              where ex = "[container_copy (cells w ! p)]" and ob = "Some ?z"])
          (simp_all add: set_obj_def fits_fresh [OF inv] container_copy_cinv)
      have "snapshot ?w' = (snapshot w)[t := Some (False, queue_of w y)]"
        using snapshot_replace [OF inv live_bound [OF t],
            where ex = "[container_copy (cells w ! p)]" and w' = ?w' and ob = "Some ?z"]
        by (simp add: set_obj_def snap_obj_def queue_of_def Some container_copy_entries)
      with r 1 True show ?thesis by (simp add: set_obj_def)
    qed
  qed
qed

lemma copy_assign_spec:
  assumes inv: "winv w" and t: "live w t x" and s: "live w s y"
  shows "(unshareable y \<and> dataPtr y = None \<and>
            copy_assign t s oom w = (Inl undefined_behaviour, w)) \<or>
         (unshareable y \<and> dataPtr y \<noteq> None \<and> oom AtClone \<and>
            copy_assign t s oom w = (Inl bad_alloc, w)) \<or>
         (\<exists>w' q. copy_assign t s oom w = (Inr (), w') \<and> winv w' \<and>
            snapshot w' = (snapshot w)[t := Some (False, queue_of w y)] @ [None] \<and>
            objs w' = (objs w)[t := Some \<lparr>unshareable = False, dataPtr = q\<rparr>] @ [None] \<and>
            (unshareable y \<longrightarrow> q = Some (length (cells w))) \<and>
            (\<not> unshareable y \<longrightarrow> q = dataPtr y))"
proof -
  let ?n = "length (objs w)"
  from copy_ctor_spec [OF inv s, of oom]
  show ?thesis
  proof (elim disjE exE conjE, goal_cases)
    case 1
    then show ?case by (simp add: copy_assign_def self_live [OF inv t])
  next
    case 2
    then show ?case by (simp add: copy_assign_def self_live [OF inv t])
  next
    case ok: (3 w1 q)
    let ?z = "\<lparr>unshareable = False, dataPtr = q\<rparr>"
    have "length (snapshot w1) = length (snapshot w @ [Some (False, queue_of w y)])"
      by (simp only: ok(3))
    then have len1: "length (objs w1) = Suc ?n" by simp
    have t1: "live w1 t x" using t ok(7) len1 by (simp add: live_def)
    from operator_assign_spec [OF ok(2) t1 ok(4), of oom]
    obtain w2 where w2: "operator_assign t ?n oom w1 = (Inr (), w2)" "winv w2"
        "snapshot w2 = (snapshot w1)[t := Some (False, queue_of w1 ?z)]"
        "objs w2 = (objs w1)[t := Some ?z]"
      by auto
    have n2: "live w2 ?n ?z" using ok(4) t by (auto simp: live_def w2(4) nth_list_update)
    from dtor_spec [OF w2(2) n2]
    obtain w3 where w3: "dtor ?n w2 = (Inr (), w3)" "winv w3"
        "snapshot w3 = (snapshot w2)[?n := None]" "objs w3 = (objs w2)[?n := None]"
      by auto
    have r: "copy_assign t s oom w = (Inr (), w3)"
      by (simp add: copy_assign_def self_live [OF inv t] ok(1) w2(1) w3(1))
    have tl: "t < ?n" by (rule live_bound [OF t])
    have qz: "queue_of w1 ?z = queue_of w y"
    proof -
      have "snapshot w1 ! ?n = Some (False, queue_of w y)"
        using ok(3) by (simp add: nth_append)
      moreover have "snapshot w1 ! ?n = Some (snap_obj w1 ?z)"
        using ok(4) by (simp add: snapshot_def live_def)
      ultimately show ?thesis by (simp add: snap_obj_def)
    qed
    have s3: "snapshot w3 = (snapshot w)[t := Some (False, queue_of w y)] @ [None]"
      using tl by (simp add: w3(3) w2(3) ok(3) qz list_update_append)
    have o1: "objs w1 = objs w @ [Some ?z]"
    proof (rule nth_equalityI)
      show "length (objs w1) = length (objs w @ [Some ?z])" using len1 by simp
    next
      fix j assume "j < length (objs w1)"
      then show "objs w1 ! j = (objs w @ [Some ?z]) ! j"
        using ok(4,7) len1 by (cases "j = ?n") (auto simp: nth_append live_def)
    qed
    have o3: "objs w3 = (objs w)[t := Some ?z] @ [None]"
      using tl by (simp add: w3(4) w2(4) o1 list_update_append)
    have "(unshareable y \<longrightarrow> q = Some (length (cells w))) \<and>
            (\<not> unshareable y \<longrightarrow> q = dataPtr y)"
      using ok(5,6) by auto
    with r w3(2) s3 o3 show ?case by blast
  qed
qed

lemma move_assign_winv:
  assumes inv: "winv w" and t: "live w t x" and s: "live w s y"
    and r: "move_assign t s oom w = (r, w')" and nub: "r \<noteq> Inl undefined_behaviour"
  shows "winv w'"
proof -
  let ?n = "length (objs w)"
  let ?z = "\<lparr>unshareable = unshareable y, dataPtr = dataPtr y\<rparr>"
  from move_ctor_spec [OF inv s]
  obtain w1 where w1: "move_ctor s w = (Inr ?n, w1)" "winv w1"
      "objs w1 = (objs w)[s := Some (y\<lparr>dataPtr := None\<rparr>)] @ [Some ?z]"
    by blast
  have tl: "t < ?n" by (rule live_bound [OF t])
  obtain x1 where t1: "live w1 t x1"
    using t tl by (cases "t = s") (auto simp: live_def w1(3) nth_append)
  have n1: "live w1 ?n ?z" by (simp add: live_def w1(3) nth_append)
  have m: "move_assign t s oom w =
      (fst (operator_assign t ?n oom w1), snd (dtor ?n (snd (operator_assign t ?n oom w1))))"
    by (simp add: move_assign_def self_live [OF inv t] w1(1) split: prod.splits)
  from operator_assign_spec [OF w1(2) t1 n1, of oom]
  show ?thesis
  proof (elim disjE exE conjE, goal_cases)
    case 1
    then show ?case using r nub m by simp
  next
    case 2
    from dtor_spec [OF w1(2) n1] 2 r m show ?case by auto
  next
    case (3 w2 q)
    have "live w2 ?n ?z" using n1 tl by (simp add: live_def 3(4) nth_list_update)
    from dtor_spec [OF 3(2) this] 3(1) r m show ?case by auto
  qed
qed

lemma step_ok_updated: "updated w i m es w' \<Longrightarrow> step_ok w i oom None w'"
  by (auto simp: step_ok_def updated_def)

lemma same_update: "\<exists>ob. xs = xs[i := ob]"
  by (rule exI [of _ "xs ! i"]) simp

lemma step_ok_oom: "unchanged w w' \<Longrightarrow> oom s \<Longrightarrow> step_ok w i oom (Some bad_alloc) w'"
  using same_update [of "snapshot w" i] by (auto simp: step_ok_def unchanged_def)

lemma step_ok_invalid: "unchanged w w' \<Longrightarrow> step_ok w i oom (Some (invalid_argument m)) w'"
  using same_update [of "snapshot w" i] by (auto simp: step_ok_def unchanged_def)

lemma step_ok_same: "winv w \<Longrightarrow> step_ok w i oom None w"
  using same_update [of "snapshot w" i] by (auto simp: step_ok_def)

lemma outcome_simps [simp]:
  "outcome (Inl e, w) = (Some e, w)" "outcome (Inr a, w) = (None, w)"
  by (simp_all add: outcome_def)

lemma push_step:
  assumes "winv w" "live w i x"
  shows "step_ok w i oom (fst (outcome (push k v i oom w))) (snd (outcome (push k v i oom w)))"
  using push_spec [OF assms, of k v oom]
  by (auto intro: step_ok_updated step_ok_oom step_ok_invalid)

lemma pop_step:
  assumes "winv w" "live w i x"
  shows "step_ok w i oom (fst (outcome (pop i oom w))) (snd (outcome (pop i oom w)))"
proof (cases "queue_of w x = []")
  case True
  then show ?thesis using pop_empty [OF assms True, of oom] unchanged_refl [OF assms(1)]
    by (auto intro: step_ok_oom step_ok_invalid)
next
  case False
  then show ?thesis using pop_spec [OF assms False, of oom]
    by (auto intro: step_ok_updated step_ok_oom step_ok_invalid)
qed

lemma pop_key_step:
  assumes "winv w" "live w i x"
  shows "step_ok w i oom (fst (outcome (pop_key k i oom w))) (snd (outcome (pop_key k i oom w)))"
proof (cases "k \<in> fst ` set (queue_of w x)")
  case False
  then show ?thesis using pop_key_absent [OF assms False, of oom]
    by (auto intro: step_ok_oom step_ok_invalid)
next
  case True
  then show ?thesis using pop_key_spec [OF assms True, of oom]
    by (auto intro: step_ok_updated step_ok_oom step_ok_invalid)
qed

lemma move_to_back_step:
  assumes "winv w" "live w i x"
  shows "step_ok w i oom (fst (outcome (move_to_back k i oom w)))
           (snd (outcome (move_to_back k i oom w)))"
proof (cases "k \<in> fst ` set (queue_of w x)")
  case False
  then show ?thesis using move_to_back_absent [OF assms False, of oom]
    by (auto intro: step_ok_oom step_ok_invalid)
next
  case True
  then show ?thesis using move_to_back_spec [OF assms True, of oom]
    by (auto intro: step_ok_updated step_ok_oom step_ok_invalid)
qed

lemma clear_step:
  assumes "winv w" "live w i x"
  shows "step_ok w i oom (fst (outcome (clear i oom w))) (snd (outcome (clear i oom w)))"
proof (cases "dataPtr x")
  case None
  then show ?thesis using clear_null [OF assms None, of oom] step_ok_same [OF assms(1)] by simp
next
  case (Some p)
  then show ?thesis using clear_spec [OF assms Some, of oom]
    by (auto intro: step_ok_updated step_ok_oom step_ok_invalid)
qed

lemma and_write_Inl [simp]: "and_write vo (Inl e, w) = (Inl e, w)"
  by (simp add: and_write_def)

lemma front_step:
  assumes "winv w" "live w i x"
  shows "step_ok w i oom (fst (outcome (and_write vo (front i oom w))))
           (snd (outcome (and_write vo (front i oom w))))"
proof (cases "queue_of w x = []")
  case True
  then show ?thesis using front_empty [OF assms True, of oom] unchanged_refl [OF assms(1)]
    by (auto intro: step_ok_oom step_ok_invalid)
next
  case False
  from front_spec [OF assms False, of oom vo] show ?thesis
    using unchanged_refl [OF assms(1)] by (auto intro: step_ok_updated step_ok_oom step_ok_invalid)
qed

lemma back_step:
  assumes "winv w" "live w i x"
  shows "step_ok w i oom (fst (outcome (and_write vo (back_kv i oom w))))
           (snd (outcome (and_write vo (back_kv i oom w))))"
proof (cases "queue_of w x = []")
  case True
  then show ?thesis using back_empty [OF assms True, of oom] unchanged_refl [OF assms(1)]
    by (auto intro: step_ok_oom step_ok_invalid)
next
  case False
  from back_spec [OF assms False, of oom vo] show ?thesis
    using unchanged_refl [OF assms(1)] by (auto intro: step_ok_updated step_ok_oom step_ok_invalid)
qed

lemma first_step:
  assumes "winv w" "live w i x"
  shows "step_ok w i oom (fst (outcome (and_write vo (first k i oom w))))
           (snd (outcome (and_write vo (first k i oom w))))"
proof (cases "k \<in> fst ` set (queue_of w x)")
  case False
  then show ?thesis using first_absent [OF assms False, of oom]
    by (auto intro: step_ok_oom step_ok_invalid)
next
  case True
  from first_spec [OF assms True, of oom vo] show ?thesis
    using unchanged_refl [OF assms(1)] by (auto intro: step_ok_updated step_ok_oom step_ok_invalid)
qed

lemma last_step:
  assumes "winv w" "live w i x"
  shows "step_ok w i oom (fst (outcome (and_write vo (last_kv k i oom w))))
           (snd (outcome (and_write vo (last_kv k i oom w))))"
proof (cases "k \<in> fst ` set (queue_of w x)")
  case False
  then show ?thesis using last_absent [OF assms False, of oom]
    by (auto intro: step_ok_oom step_ok_invalid)
next
  case True
  from last_spec [OF assms True, of oom vo] show ?thesis
    using unchanged_refl [OF assms(1)] by (auto intro: step_ok_updated step_ok_oom step_ok_invalid)
qed

lemma exec_mutation:
  assumes "winv w" "live w i x" "target op = Some i"
  shows "step_ok w i oom (fst (exec oom op w)) (snd (exec oom op w))"
  using assms push_step pop_step pop_key_step move_to_back_step clear_step
    front_step back_step first_step last_step
  by (cases op) simp_all


lemma exec_dead:
  "target op = Some i \<Longrightarrow> self i w = Inl e \<Longrightarrow> exec oom op w = (Some e, w)"
  by (cases op)
    (simp_all add: push_def pop_def pop_key_def move_to_back_def clear_def front_def back_kv_def
      first_def last_kv_def)

lemma exec_winv:
  assumes inv: "winv w" and ex: "exec oom op w = (r, w')" and nub: "r \<noteq> Some undefined_behaviour"
  shows "winv w'"
proof (cases "target op")
  case (Some i)
  show ?thesis
  proof (cases "self i w")
    case (Inl e)
    with exec_dead [OF Some Inl, of oom] ex show ?thesis using inv by simp
  next
    case (Inr x)
    from exec_mutation [OF inv self_Inr [OF Inr] Some, of oom] ex
    show ?thesis by (simp add: step_ok_def)
  qed
next
  case None
  show ?thesis
  proof (cases op)
    case Ctor
    with ctor_spec [OF inv, of oom] ex inv show ?thesis by auto
  next
    case (CopyCtor j)
    show ?thesis
    proof (cases "self j w")
      case (Inl e)
      with ex CopyCtor inv show ?thesis by (simp add: copy_ctor_def)
    next
      case (Inr y)
      from copy_ctor_spec [OF inv self_Inr [OF Inr], of oom] ex CopyCtor inv
      show ?thesis by auto
    qed
  next
    case (MoveCtor j)
    show ?thesis
    proof (cases "self j w")
      case (Inl e)
      with ex MoveCtor inv show ?thesis by (simp add: move_ctor_def)
    next
      case (Inr y)
      from move_ctor_spec [OF inv self_Inr [OF Inr]] ex MoveCtor
      show ?thesis by auto
    qed
  next
    case (CopyAssign t j)
    show ?thesis
    proof (cases "self t w")
      case (Inl e)
      with ex CopyAssign inv show ?thesis by (simp add: copy_assign_def)
    next
      case tx: (Inr x)
      show ?thesis
      proof (cases "self j w")
        case (Inl e)
        with ex CopyAssign inv tx show ?thesis by (simp add: copy_assign_def copy_ctor_def)
      next
        case (Inr y)
        from copy_assign_spec [OF inv self_Inr [OF tx] self_Inr [OF Inr], of oom] ex CopyAssign inv
        show ?thesis by auto
      qed
    qed
  next
    case (MoveAssign t j)
    show ?thesis
    proof (cases "self t w")
      case (Inl e)
      with ex MoveAssign inv show ?thesis by (simp add: move_assign_def)
    next
      case tx: (Inr x)
      show ?thesis
      proof (cases "self j w")
        case (Inl e)
        with ex MoveAssign inv tx show ?thesis by (simp add: move_assign_def move_ctor_def)
      next
        case (Inr y)
        obtain r0 where r0: "move_assign t j oom w = (r0, w')" "r = (case r0 of Inl e \<Rightarrow> Some e | Inr a \<Rightarrow> None)"
          using ex MoveAssign by (cases "move_assign t j oom w") (auto simp: outcome_def split: sum.splits)
        have "r0 \<noteq> Inl undefined_behaviour" using r0(2) nub by auto
        from move_assign_winv [OF inv self_Inr [OF tx] self_Inr [OF Inr] r0(1) this]
        show ?thesis .
      qed
    qed
  next
    case (Dtor j)
    show ?thesis
    proof (cases "self j w")
      case (Inl e)
      with ex Dtor inv show ?thesis by (simp add: dtor_def)
    next
      case (Inr y)
      from dtor_spec [OF inv self_Inr [OF Inr]] ex Dtor show ?thesis by auto
    qed
  qed (use None in simp_all)
qed

lemma run_winv: "winv w \<Longrightarrow> run prog w = Some w' \<Longrightarrow> winv w'"
proof (induction prog arbitrary: w)
  case Nil
  then show ?case by simp
next
  case (Cons s prog)
  obtain r w1 where e: "exec (\<lambda>a. a \<in> set (fst s)) (snd s) w = (r, w1)"
    by (cases "exec (\<lambda>a. a \<in> set (fst s)) (snd s) w")
  with Cons.prems(2) have nub: "r \<noteq> Some undefined_behaviour" and rest: "run prog w1 = Some w'"
    by (auto split: option.splits error.splits)
  from exec_winv [OF Cons.prems(1) e nub] have "winv w1" .
  from Cons.IH [OF this rest] show ?case .
qed

lemma reachable_winv: "run prog init_world = Some w \<Longrightarrow> winv w"
  using run_winv [OF winv_init] .

section \<open>The claims\<close>

text \<open>
  C1 (invariants I1 to I3).  After any program of constructions, copies, moves, assignments,
  destructions, mutators and mutable accessors, whether or not some of its statements threw, every
  live object's storage is consistent: the handles in the queue are distinct; for every key
  \<open>k\<close> the index holds a bucket exactly when some entry of the queue has key \<open>k\<close>,
  and that bucket is the list of the handles of the entries with key \<open>k\<close>, in queue
  order; and \<^verbatim>\<open>count(k)\<close> is the number of entries with key \<open>k\<close>.
\<close>

theorem index_matches_queue:
  assumes "run prog init_world = Some w" and "live w i x"
  shows "(\<forall>k. count w x k = length (filter (\<lambda>e. fst e = k) (queue_of w x))) \<and>
         (\<forall>p. dataPtr x = Some p \<longrightarrow>
            distinct (map fst (pair_list (cells w ! p))) \<and>
            (\<forall>k. map_find k (iterator_list_map (cells w ! p)) =
                   (if nodes_of k (pair_list (cells w ! p)) = [] then None
                    else Some (nodes_of k (pair_list (cells w ! p))))))"
proof -
  have inv: "winv w" by (rule reachable_winv [OF assms(1)])
  have "\<And>k. count w x k = length (filter (\<lambda>e. fst e = k) (queue_of w x))"
    using count_queue [OF inv assms(2)] by (simp add: with_key_def)
  moreover have "\<And>p. dataPtr x = Some p \<Longrightarrow> cinv (cells w ! p)"
    using winv_cinv [OF inv winv_range [OF inv assms(2)]] by simp
  ultimately show ?thesis by (simp add: cinv_def)
qed

theorem index_matches_queue_witness:
  "count \<lparr>cells = [\<lparr>iterator_list_map = [(1::nat, [0, 2]), (2, [1])],
                     pair_list = [(1, 2, 20::nat), (0, 1, 10), (2, 1, 30)]\<rparr>],
           objs = [Some \<lparr>unshareable = False, dataPtr = Some 0\<rparr>]\<rparr>
         \<lparr>unshareable = False, dataPtr = Some 0\<rparr> 1 = 2 \<and>
   map_find (1::nat) [(1, [0, 2]), (2, [1])] = Some [0, 2] \<and>
   nodes_of (1::nat) [(1, 2, 20::nat), (0, 1, 10), (2, 1, 30)] = [0, 2]"
proof -
  let ?x = "\<lparr>unshareable = False, dataPtr = Some 0\<rparr>"
  let ?w = "\<lparr>cells = [\<lparr>iterator_list_map = [(1::nat, [0, 2]), (2, [1])],
                     pair_list = [(1, 2, 20::nat), (0, 1, 10), (2, 1, 30)]\<rparr>],
           objs = [Some ?x]\<rparr>"
  have r: "run [([], Ctor), ([], Push 0 (1::nat) (10::nat)), ([], Push 0 2 20), ([], Push 0 1 30),
                ([], MoveToBack 0 1)] init_world = Some ?w"
    by code_simp
  have l: "live ?w 0 ?x" by (simp add: live_def)
  have n: "nodes_of (1::nat) [(1, 2, 20::nat), (0, 1, 10), (2, 1, 30)] = [0, 2]"
    by (simp add: nodes_of_def)
  from index_matches_queue [OF r l]
  have "count ?w ?x 1 = length (filter (\<lambda>e. fst e = 1) (queue_of ?w ?x))"
    and "map_find 1 (iterator_list_map (cells ?w ! 0)) =
           (if nodes_of 1 (pair_list (cells ?w ! 0)) = [] then None
            else Some (nodes_of 1 (pair_list (cells ?w ! 0))))"
    by simp_all
  then show ?thesis using n by (simp add: queue_of_def entries_def)
qed

text \<open>
  C9 (key iteration).  For every live object of a reachable world, the keys met between
  \<^verbatim>\<open>k_begin()\<close> and \<^verbatim>\<open>k_end()\<close> are strictly ascending, hence without duplicates, and
  they are exactly the keys whose \<^verbatim>\<open>count\<close> is positive.
\<close>

theorem keys_ascending_and_counted:
  assumes "run prog init_world = Some w" and "live w i x"
  shows "sorted_wrt (<) (k_range w x) \<and> distinct (k_range w x) \<and>
         set (k_range w x) = {k. 0 < count w x k}"
proof -
  have inv: "winv w" by (rule reachable_winv [OF assms(1)])
  have s: "sorted_wrt (<) (k_range w x)" by (rule k_range_sorted [OF inv assms(2)])
  then have d: "distinct (k_range w x)" by (simp add: strict_sorted_iff)
  have "\<And>k. 0 < count w x k \<longleftrightarrow> k \<in> fst ` set (queue_of w x)"
    by (auto simp: count_queue [OF inv assms(2)] with_key_def filter_empty_conv image_iff)
  then have "set (k_range w x) = {k. 0 < count w x k}"
    using k_range_set [OF inv assms(2)] by auto
  with s d show ?thesis by simp
qed

theorem keys_ascending_and_counted_witness:
  "k_range \<lparr>cells = [\<lparr>iterator_list_map = [(1::nat, [2]), (2, [0, 1])],
                     pair_list = [(0, 2, 10::nat), (1, 2, 20), (2, 1, 30)]\<rparr>],
           objs = [Some \<lparr>unshareable = False, dataPtr = Some 0\<rparr>]\<rparr>
         \<lparr>unshareable = False, dataPtr = Some 0\<rparr> = [1, 2] \<and>
   {k. 0 < count \<lparr>cells = [\<lparr>iterator_list_map = [(1::nat, [2]), (2, [0, 1])],
                     pair_list = [(0, 2, 10::nat), (1, 2, 20), (2, 1, 30)]\<rparr>],
           objs = [Some \<lparr>unshareable = False, dataPtr = Some 0\<rparr>]\<rparr>
         \<lparr>unshareable = False, dataPtr = Some 0\<rparr> k} = {1, 2}"
proof -
  let ?x = "\<lparr>unshareable = False, dataPtr = Some 0\<rparr>"
  let ?w = "\<lparr>cells = [\<lparr>iterator_list_map = [(1::nat, [2]), (2, [0, 1])],
                     pair_list = [(0, 2, 10::nat), (1, 2, 20), (2, 1, 30)]\<rparr>],
           objs = [Some ?x]\<rparr>"
  have r: "run [([], Ctor), ([], Push 0 (2::nat) (10::nat)), ([], Push 0 2 20), ([], Push 0 1 30)]
             init_world = Some ?w"
    by code_simp
  have l: "live ?w 0 ?x" by (simp add: live_def)
  have k: "k_range ?w ?x = [1, 2]" by (simp add: k_range_def)
  from keys_ascending_and_counted [OF r l]
  have "{k. 0 < count ?w ?x k} = set (k_range ?w ?x)" by simp
  also have "\<dots> = {1, 2}" by (simp only: k) simp
  finally show ?thesis using k by simp
qed

lemma updated_queue:
  assumes "updated w i m es w'"
  shows "\<exists>x'. live w' i x' \<and> unshareable x' = m \<and> queue_of w' x' = es \<and> dataPtr x' \<noteq> None"
proof -
  from assms obtain q where q: "live w' i \<lparr>unshareable = m, dataPtr = Some q\<rparr>"
    and s: "snapshot w' = (snapshot w)[i := Some (m, es)]"
    by (auto simp: updated_def)
  let ?x = "\<lparr>unshareable = m, dataPtr = Some q\<rparr>"
  have i: "i < length (objs w')" using q by (simp add: live_def)
  then have "i < length (snapshot w)" using arg_cong [OF s, of length] by simp
  then have "snapshot w' ! i = Some (m, es)" by (simp add: s)
  moreover have "snapshot w' ! i = Some (snap_obj w' ?x)"
    using q by (simp add: snapshot_def live_def)
  ultimately have "queue_of w' ?x = es" by (simp add: snap_obj_def)
  with q show ?thesis by (intro exI [of _ ?x]) simp
qed

lemma updated_winv: "updated w i m es w' \<Longrightarrow> winv w'"
  by (simp add: updated_def)

lemma no_oom_simp [simp]: "\<not> no_oom s"
  by (simp add: no_oom_def)

lemma push_all_spec:
  "winv w \<Longrightarrow> live w i x \<Longrightarrow>
   \<exists>w' x'. push_all kvs i w = Some w' \<and> winv w' \<and> live w' i x' \<and>
            queue_of w' x' = queue_of w x @ kvs"
proof (induction kvs arbitrary: w x)
  case Nil
  then show ?case by auto
next
  case (Cons kv kvs)
  from push_ok [OF Cons.prems, of no_oom "fst kv" "snd kv"]
  obtain w1 where w1: "push (fst kv) (snd kv) i no_oom w = (Inr (), w1)"
      "updated w i False (queue_of w x @ [(fst kv, snd kv)]) w1"
    by auto
  from updated_queue [OF w1(2)] obtain x1 where
    x1: "live w1 i x1" "queue_of w1 x1 = queue_of w x @ [kv]" by auto
  from Cons.IH [OF updated_winv [OF w1(2)] x1(1)] x1(2) w1(1)
  show ?case by auto
qed

lemma peek_front_spec:
  assumes inv: "winv w" and lv: "live w i x" and ne: "queue_of w x \<noteq> []"
  shows "\<exists>w1 x1. peek_front mut i w = (Inr (hd (queue_of w x)), w1) \<and> winv w1 \<and>
           live w1 i x1 \<and> queue_of w1 x1 = queue_of w x"
proof (cases mut)
  case False
  then show ?thesis using front_const_spec [OF inv lv] ne inv lv
    by (auto simp: peek_front_def)
next
  case True
  from front_spec [OF inv lv ne, of no_oom None]
  have "\<exists>e q w1. front i no_oom w = (Inr (e, q), w1) \<and> snd e = hd (queue_of w x) \<and>
          updated w i True (queue_of w x) w1"
    by simp blast
  then obtain e q w1 where w1: "front i no_oom w = (Inr (e, q), w1)" "snd e = hd (queue_of w x)"
      "updated w i True (queue_of w x) w1"
    by blast
  from updated_queue [OF w1(3)] updated_winv [OF w1(3)] w1(1,2) True
  show ?thesis by (auto simp: peek_front_def)
qed

lemma drain_spec:
  "winv w \<Longrightarrow> live w i x \<Longrightarrow> n \<le> length (queue_of w x) \<Longrightarrow>
   \<exists>w' x'. drain mut n i w = Some (take n (queue_of w x), w') \<and> winv w' \<and> live w' i x' \<and>
            queue_of w' x' = drop n (queue_of w x)"
proof (induction n arbitrary: w x)
  case 0
  then show ?case by auto
next
  case (Suc n)
  then have ne: "queue_of w x \<noteq> []" by auto
  from peek_front_spec [OF Suc.prems(1,2) ne, of mut]
  obtain w1 x1 where w1: "peek_front mut i w = (Inr (hd (queue_of w x)), w1)" "winv w1"
      "live w1 i x1" "queue_of w1 x1 = queue_of w x"
    by blast
  have ne1: "queue_of w1 x1 \<noteq> []" using ne w1(4) by simp
  from pop_spec [OF w1(2,3) ne1, of no_oom]
  obtain w2 where w2: "pop i no_oom w1 = (Inr (), w2)" "updated w1 i False (tl (queue_of w x)) w2"
    using w1(4) by auto
  from updated_queue [OF w2(2)] obtain x2 where
    x2: "live w2 i x2" "queue_of w2 x2 = tl (queue_of w x)" by auto
  have "n \<le> length (queue_of w2 x2)" using Suc.prems(3) x2(2) by simp
  from Suc.IH [OF updated_winv [OF w2(2)] x2(1) this]
  obtain w' x' where w': "drain mut n i w2 = Some (take n (queue_of w2 x2), w')" "winv w'"
      "live w' i x'" "queue_of w' x' = drop n (queue_of w2 x2)"
    by blast
  have "take (Suc n) (queue_of w x) = hd (queue_of w x) # take n (tl (queue_of w x))"
    using ne by (cases "queue_of w x") auto
  moreover have "drop (Suc n) (queue_of w x) = drop n (tl (queue_of w x))"
    using ne by (cases "queue_of w x") auto
  ultimately show ?case using w1(1) w2(1) w' x2(2) by auto
qed

text \<open>
  C2 (FIFO order).  In any reachable world, default-construct a fresh object, insert the entries
  \<open>kvs\<close> one after the other, with no allocation failing: every insert returns, \<^verbatim>\<open>size()\<close>
  is the number of inserts, and reading the front (through the const or the mutable
  \<^verbatim>\<open>front\<close>) and calling \<^verbatim>\<open>pop()\<close>, as many times as there were inserts, returns
  each time and yields exactly \<open>kvs\<close>, in insertion order.
\<close>

theorem fifo_order:
  assumes "run prog init_world = Some w"
  shows "\<exists>w0 w1 x1 w2.
           ctor no_oom w = (Inr (length (objs w)), w0) \<and>
           push_all kvs (length (objs w)) w0 = Some w1 \<and>
           live w1 (length (objs w)) x1 \<and> size_kv w1 x1 = length kvs \<and>
           drain mut (length kvs) (length (objs w)) w1 = Some (kvs, w2)"
proof -
  let ?i = "length (objs w)"
  have inv: "winv w" by (rule reachable_winv [OF assms])
  from ctor_spec [OF inv, of no_oom]
  obtain w0 where w0: "ctor no_oom w = (Inr ?i, w0)" "winv w0"
      "live w0 ?i \<lparr>unshareable = False, dataPtr = Some (length (cells w))\<rparr>"
      "snapshot w0 = snapshot w @ [Some (False, [])]"
    by auto
  let ?x0 = "\<lparr>unshareable = False, dataPtr = Some (length (cells w))\<rparr>"
  have "snapshot w0 ! ?i = Some (snap_obj w0 ?x0)"
    using w0(3) by (simp add: snapshot_def live_def)
  then have q0: "queue_of w0 ?x0 = []" by (simp add: w0(4) nth_append snap_obj_def)
  from push_all_spec [OF w0(2,3), of kvs]
  obtain w1 x1 where w1: "push_all kvs ?i w0 = Some w1" "winv w1" "live w1 ?i x1"
      "queue_of w1 x1 = kvs"
    using q0 by auto
  from drain_spec [OF w1(2,3), of "length kvs" mut]
  obtain w2 where "drain mut (length kvs) ?i w1 = Some (kvs, w2)"
    using w1(4) by auto
  with w0(1) w1 show ?thesis by (auto simp: size_queue)
qed

theorem fifo_order_witness:
  "\<exists>w0 w1 x1 w2.
      ctor no_oom (init_world :: (nat, nat) world) = (Inr 0, w0) \<and>
      push_all [(1, 10), (2, 20), (1, 30)] 0 w0 = Some w1 \<and>
      live w1 0 x1 \<and> size_kv w1 x1 = 3 \<and>
      drain True 3 0 w1 = Some ([(1, 10), (2, 20), (1, 30)], w2)"
proof -
  have r: "run [] (init_world :: (nat, nat) world) = Some init_world" by simp
  have l: "length (objs (init_world :: (nat, nat) world)) = 0" by (simp add: init_world_def)
  have n: "length [(1::nat, 10::nat), (2, 20), (1, 30)] = 3" by simp
  from fifo_order [OF r, of "[(1, 10), (2, 20), (1, 30)]" True]
  show ?thesis unfolding l n .
qed

lemma with_key_remove_first: "with_key k (remove_first_key k es) = tl (with_key k es)"
  by (induction es) (auto simp: with_key_def)

lemma with_key_nonempty: "with_key k es \<noteq> [] \<longleftrightarrow> k \<in> fst ` set es"
  by (auto simp: with_key_def filter_empty_conv image_iff)

lemma regroup_again:
  "without_key k (without_key k es @ with_key k es) @ with_key k (without_key k es @ with_key k es)
     = without_key k es @ with_key k es"
proof -
  have 1: "filter (\<lambda>e. fst e \<noteq> k) (filter (\<lambda>e. fst e = k) es) = []"
    by (simp add: filter_empty_conv)
  have 2: "filter (\<lambda>e. fst e = k) (filter (\<lambda>e. fst e \<noteq> k) es) = []"
    by (simp add: filter_empty_conv)
  have 3: "filter (\<lambda>e. fst e \<noteq> k) (filter (\<lambda>e. fst e \<noteq> k) es) = filter (\<lambda>e. fst e \<noteq> k) es"
    by simp
  have 4: "filter (\<lambda>e. fst e = k) (filter (\<lambda>e. fst e = k) es) = filter (\<lambda>e. fst e = k) es"
    by simp
  show ?thesis unfolding without_key_def with_key_def filter_append 1 2 3 4 by simp
qed

lemma key_still_there:
  "k \<in> fst ` set es \<Longrightarrow> k \<in> fst ` set (without_key k es @ with_key k es)"
  by (auto simp: without_key_def with_key_def)

text \<open>
  C3 (moving a key to the back).  In a reachable world, let a live object hold at least one
  entry with key \<open>k\<close>, and let no deep clone fail for lack of memory.  Then
  \<^verbatim>\<open>move_to_back(k)\<close> returns, and the queue afterwards is the entries with other keys, in
  their old order, followed by the entries with key \<open>k\<close>, in their old order.  A second
  \<^verbatim>\<open>move_to_back(k)\<close> returns and leaves the queue as it is.  In particular the queue
  \<open>(k,v1), (b,v2), (k,v3)\<close> becomes \<open>(b,v2), (k,v1), (k,v3)\<close>.
\<close>

theorem move_to_back_order:
  assumes "run prog init_world = Some w" and "live w i x"
    and "k \<in> fst ` set (queue_of w x)" and "\<not> oom AtClone"
  shows "\<exists>w' x' w'' x''.
           move_to_back k i oom w = (Inr (), w') \<and> live w' i x' \<and>
           queue_of w' x' = filter (\<lambda>e. fst e \<noteq> k) (queue_of w x)
                              @ filter (\<lambda>e. fst e = k) (queue_of w x) \<and>
           move_to_back k i oom w' = (Inr (), w'') \<and> live w'' i x'' \<and>
           queue_of w'' x'' = queue_of w' x' \<and>
           (\<forall>b v1 v2 v3. b \<noteq> k \<and> queue_of w x = [(k, v1), (b, v2), (k, v3)] \<longrightarrow>
              queue_of w' x' = [(b, v2), (k, v1), (k, v3)])"
proof -
  let ?q = "queue_of w x"
  let ?q' = "without_key k ?q @ with_key k ?q"
  have inv: "winv w" by (rule reachable_winv [OF assms(1)])
  from move_to_back_spec [OF inv assms(2,3), of oom] assms(4)
  obtain w' where w': "move_to_back k i oom w = (Inr (), w')" "updated w i False ?q' w'"
    by auto
  from updated_queue [OF w'(2)] obtain x' where x': "live w' i x'" "queue_of w' x' = ?q'"
    by auto
  have inv': "winv w'" by (rule updated_winv [OF w'(2)])
  have k': "k \<in> fst ` set (queue_of w' x')" unfolding x'(2) by (rule key_still_there [OF assms(3)])
  from move_to_back_spec [OF inv' x'(1) k', of oom] assms(4)
  obtain w'' where w'': "move_to_back k i oom w' = (Inr (), w'')"
      "updated w' i False (without_key k (queue_of w' x') @ with_key k (queue_of w' x')) w''"
    by auto
  from updated_queue [OF w''(2)] obtain x'' where x'': "live w'' i x''"
      "queue_of w'' x'' = without_key k (queue_of w' x') @ with_key k (queue_of w' x')"
    by auto
  have same: "queue_of w'' x'' = queue_of w' x'"
    unfolding x''(2) x'(2) by (rule regroup_again)
  have ex: "\<forall>b v1 v2 v3. b \<noteq> k \<and> ?q = [(k, v1), (b, v2), (k, v3)] \<longrightarrow>
              queue_of w' x' = [(b, v2), (k, v1), (k, v3)]"
    unfolding x'(2) by (auto simp: without_key_def with_key_def)
  have q': "queue_of w' x' = filter (\<lambda>e. fst e \<noteq> k) ?q @ filter (\<lambda>e. fst e = k) ?q"
    unfolding x'(2) by (simp add: without_key_def with_key_def)
  from w'(1) x'(1) q' w''(1) x''(1) same ex show ?thesis by blast
qed

theorem move_to_back_order_witness:
  "\<exists>w' x' w'' x''.
      move_to_back (1::nat) 0 no_oom
        \<lparr>cells = [\<lparr>iterator_list_map = [(1, [0, 2]), (2, [1])],
                  pair_list = [(0, 1, 10::nat), (1, 2, 20), (2, 1, 30)]\<rparr>],
         objs = [Some \<lparr>unshareable = False, dataPtr = Some 0\<rparr>]\<rparr> = (Inr (), w') \<and>
      live w' 0 x' \<and> queue_of w' x' = [(2, 20), (1, 10), (1, 30)] \<and>
      move_to_back 1 0 no_oom w' = (Inr (), w'') \<and> live w'' 0 x'' \<and>
      queue_of w'' x'' = queue_of w' x'"
proof -
  let ?x = "\<lparr>unshareable = False, dataPtr = Some 0\<rparr>"
  let ?w = "\<lparr>cells = [\<lparr>iterator_list_map = [(1::nat, [0, 2]), (2, [1])],
                     pair_list = [(0, 1, 10::nat), (1, 2, 20), (2, 1, 30)]\<rparr>],
           objs = [Some ?x]\<rparr>"
  have r: "run [([], Ctor), ([], Push 0 (1::nat) (10::nat)), ([], Push 0 2 20), ([], Push 0 1 30)]
             init_world = Some ?w"
    by code_simp
  have l: "live ?w 0 ?x" by (simp add: live_def)
  have q: "queue_of ?w ?x = [(1, 10), (2, 20), (1, 30)]" by (simp add: queue_of_def entries_def)
  have k: "1 \<in> fst ` set (queue_of ?w ?x)" unfolding q by simp
  have o: "\<not> no_oom AtClone" by simp
  from move_to_back_order [where oom = no_oom, OF r l k o] show ?thesis unfolding q by simp blast
qed

text \<open>
  C8 (per-key FIFO).  In a reachable world, let a live object hold at least one entry with key
  \<open>k\<close>, and let no deep clone fail.  Then \<^verbatim>\<open>first(k)\<close>, const or not, returns the
  first entry of the queue with key \<open>k\<close> and \<^verbatim>\<open>last(k)\<close> the last one;
  \<^verbatim>\<open>pop(k)\<close> returns and removes exactly the first entry with key \<open>k\<close> from the
  queue; \<^verbatim>\<open>count(k)\<close> drops by one, and \<open>k\<close> stays among the keys exactly when it
  had more than one entry.  If the entries with key \<open>k\<close> were \<open>(k,v1), (k,v2)\<close>, then
  \<^verbatim>\<open>first(k)\<close> is \<open>(k,v1)\<close> before the removal and \<open>(k,v2)\<close> after it.
\<close>

theorem per_key_fifo:
  assumes "run prog init_world = Some w" and "live w i x"
    and "k \<in> fst ` set (queue_of w x)" and "\<not> oom AtClone"
  shows "first_const k i w = Inr (hd (filter (\<lambda>e. fst e = k) (queue_of w x))) \<and>
         last_const k i w = Inr (last (filter (\<lambda>e. fst e = k) (queue_of w x))) \<and>
         (\<exists>e p w1. first k i oom w = (Inr (e, p), w1) \<and>
                    snd e = hd (filter (\<lambda>e. fst e = k) (queue_of w x))) \<and>
         (\<exists>e p w1. last_kv k i oom w = (Inr (e, p), w1) \<and>
                    snd e = last (filter (\<lambda>e. fst e = k) (queue_of w x))) \<and>
         (\<exists>w' x'. pop_key k i oom w = (Inr (), w') \<and> live w' i x' \<and>
            queue_of w' x' = remove_first_key k (queue_of w x) \<and>
            count w' x' k = count w x k - 1 \<and>
            (k \<in> set (k_range w' x') \<longleftrightarrow> 1 < count w x k) \<and>
            (\<forall>v1 v2. filter (\<lambda>e. fst e = k) (queue_of w x) = [(k, v1), (k, v2)] \<longrightarrow>
               first_const k i w = Inr (k, v1) \<and> first_const k i w' = Inr (k, v2)))"
proof -
  let ?q = "queue_of w x"
  have inv: "winv w" by (rule reachable_winv [OF assms(1)])
  have a: "first_const k i w = Inr (hd (with_key k ?q))"
    using first_const_spec [OF inv assms(2), of k] assms(3) by simp
  have b: "last_const k i w = Inr (last (with_key k ?q))"
    using last_const_spec [OF inv assms(2), of k] assms(3) by simp
  have c: "\<exists>e p w1. first k i oom w = (Inr (e, p), w1) \<and> snd e = hd (with_key k ?q)"
    using first_spec [OF inv assms(2,3), of oom None] assms(4) by simp blast
  have d: "\<exists>e p w1. last_kv k i oom w = (Inr (e, p), w1) \<and> snd e = last (with_key k ?q)"
    using last_spec [OF inv assms(2,3), of oom None] assms(4) by simp blast
  from pop_key_spec [OF inv assms(2,3), of oom] assms(4)
  obtain w' where w': "pop_key k i oom w = (Inr (), w')"
      "updated w i False (remove_first_key k ?q) w'"
    by auto
  from updated_queue [OF w'(2)] obtain x' where
    x': "live w' i x'" "queue_of w' x' = remove_first_key k ?q" by auto
  have inv': "winv w'" by (rule updated_winv [OF w'(2)])
  have cnt: "count w' x' k = count w x k - 1"
    by (simp add: count_queue [OF inv' x'(1)] count_queue [OF inv assms(2)] x'(2)
        with_key_remove_first)
  have "k \<in> set (k_range w' x') \<longleftrightarrow> with_key k (queue_of w' x') \<noteq> []"
    by (simp add: k_range_set [OF inv' x'(1)] with_key_nonempty)
  also have "\<dots> \<longleftrightarrow> 1 < length (with_key k ?q)"
    by (cases "with_key k ?q") (auto simp: x'(2) with_key_remove_first)
  finally have kr: "k \<in> set (k_range w' x') \<longleftrightarrow> 1 < count w x k"
    by (simp add: count_queue [OF inv assms(2)])
  have ex: "\<forall>v1 v2. with_key k ?q = [(k, v1), (k, v2)] \<longrightarrow>
               first_const k i w = Inr (k, v1) \<and> first_const k i w' = Inr (k, v2)"
  proof (intro allI impI)
    fix v1 v2 assume h: "with_key k ?q = [(k, v1), (k, v2)]"
    have "with_key k (queue_of w' x') = [(k, v2)]"
      by (simp add: x'(2) with_key_remove_first h)
    then have "first_const k i w' = Inr (k, v2)"
      using first_const_spec [OF inv' x'(1), of k] with_key_nonempty [of k "queue_of w' x'"]
      by simp
    with a h show "first_const k i w = Inr (k, v1) \<and> first_const k i w' = Inr (k, v2)" by simp
  qed
  from a b c d w'(1) x' cnt kr ex show ?thesis unfolding with_key_def by blast
qed

theorem per_key_fifo_witness:
  "first_const (1::nat) 0
     \<lparr>cells = [\<lparr>iterator_list_map = [(1, [0, 2]), (2, [1])],
               pair_list = [(0, 1, 10::nat), (1, 2, 20), (2, 1, 30)]\<rparr>],
      objs = [Some \<lparr>unshareable = False, dataPtr = Some 0\<rparr>]\<rparr> = Inr (1, 10) \<and>
   last_const (1::nat) 0
     \<lparr>cells = [\<lparr>iterator_list_map = [(1, [0, 2]), (2, [1])],
               pair_list = [(0, 1, 10::nat), (1, 2, 20), (2, 1, 30)]\<rparr>],
      objs = [Some \<lparr>unshareable = False, dataPtr = Some 0\<rparr>]\<rparr> = Inr (1, 30)"
proof -
  let ?x = "\<lparr>unshareable = False, dataPtr = Some 0\<rparr>"
  let ?w = "\<lparr>cells = [\<lparr>iterator_list_map = [(1::nat, [0, 2]), (2, [1])],
                     pair_list = [(0, 1, 10::nat), (1, 2, 20), (2, 1, 30)]\<rparr>],
           objs = [Some ?x]\<rparr>"
  have r: "run [([], Ctor), ([], Push 0 (1::nat) (10::nat)), ([], Push 0 2 20), ([], Push 0 1 30)]
             init_world = Some ?w"
    by code_simp
  have l: "live ?w 0 ?x" by (simp add: live_def)
  have q: "queue_of ?w ?x = [(1, 10), (2, 20), (1, 30)]" by (simp add: queue_of_def entries_def)
  have k: "1 \<in> fst ` set (queue_of ?w ?x)" unfolding q by simp
  have o: "\<not> no_oom AtClone" by simp
  from per_key_fifo [where oom = no_oom, OF r l k o] show ?thesis unfolding q by simp
qed

lemma observe_eq:
  assumes "winv w" "live w i x" "winv w'" "live w' j y" "queue_of w' y = queue_of w x"
  shows "observe w' y = observe w x"
proof -
  have "count w' y = count w x"
    by (rule ext) (simp add: count_queue [OF assms(1,2)] count_queue [OF assms(3,4)] assms(5))
  then show ?thesis
    using k_range_unique [OF assms] by (simp add: observe_def size_queue assms(5))
qed

lemma snapshot_live:
  assumes "snapshot w' ! j = snapshot w ! j" "length (snapshot w') = length (snapshot w)"
    and "live w j y"
  shows "\<exists>y'. live w' j y' \<and> unshareable y' = unshareable y \<and> queue_of w' y' = queue_of w y"
proof -
  have j: "j < length (objs w)" "j < length (objs w')" using assms(2,3) by (auto simp: live_def)
  have "snapshot w ! j = Some (snap_obj w y)" using assms(3) by (simp add: snapshot_def live_def)
  then have "map_option (snap_obj w') (objs w' ! j) = Some (snap_obj w y)"
    using assms(1) j by (simp add: snapshot_def)
  then obtain y' where "objs w' ! j = Some y'" "snap_obj w' y' = snap_obj w y" by auto
  then show ?thesis using j by (auto simp: live_def snap_obj_def)
qed

lemma snapshot_observe:
  assumes "winv w" "winv w'" "snapshot w' ! j = snapshot w ! j"
    "length (snapshot w') = length (snapshot w)" "live w j y"
  shows "\<exists>y'. live w' j y' \<and> unshareable y' = unshareable y \<and> observe w' y' = observe w y"
proof -
  from snapshot_live [OF assms(3,4,5)] obtain y' where
    y': "live w' j y'" "unshareable y' = unshareable y" "queue_of w' y' = queue_of w y" by blast
  from observe_eq [OF assms(1,5,2) y'(1,3)] y' show ?thesis by blast
qed

lemma step_ok_frame:
  assumes "step_ok w i oom r w'"
  shows "winv w' \<and> length (snapshot w') = length (snapshot w) \<and>
         (\<forall>j. j \<noteq> i \<longrightarrow> snapshot w' ! j = snapshot w ! j)"
proof -
  from assms obtain ob where "winv w'" "snapshot w' = (snapshot w)[i := ob]"
    by (auto simp: step_ok_def)
  then show ?thesis by simp
qed

lemma empty_count: "winv w \<Longrightarrow> live w i x \<Longrightarrow> count w x k = 0 \<longleftrightarrow> k \<notin> fst ` set (queue_of w x)"
  using with_key_nonempty [of k "queue_of w x"] by (auto simp: count_queue)

lemma unchanged_observe:
  assumes "winv w" "live w i x" "unchanged w w'" "objs w' = objs w"
  shows "live w' i x \<and> observe w' x = observe w x"
proof -
  have l: "live w' i x" using assms(2,4) by (simp add: live_def)
  have w': "winv w'" "snapshot w' = snapshot w" using assms(3) by (auto simp: unchanged_def)
  from snapshot_live [OF _ _ assms(2), of w'] w'(2)
  obtain y' where "live w' i y'" "queue_of w' y' = queue_of w x" by auto
  with l have "queue_of w' x = queue_of w x" by (simp add: live_def)
  from observe_eq [OF assms(1,2) w'(1) l this] l show ?thesis by simp
qed

subsection \<open>Raising on an empty queue or a missing key\<close>

lemma pop_errors:
  assumes inv: "winv w" and lv: "live w i x"
  shows "(fst (pop i oom w) = Inl EmptyCollection \<longleftrightarrow> empty_kv w x) \<and>
         (empty_kv w x \<longrightarrow> pop i oom w = (Inl EmptyCollection, w))"
proof (cases "queue_of w x = []")
  case True
  then show ?thesis using pop_empty [OF inv lv True, of oom] by (simp add: empty_queue)
next
  case False
  from pop_spec [OF inv lv False, of oom] False show ?thesis by (auto simp: empty_queue)
qed

lemma front_errors:
  assumes inv: "winv w" and lv: "live w i x"
  shows "(fst (front i oom w) = Inl EmptyCollection \<longleftrightarrow> empty_kv w x) \<and>
         (empty_kv w x \<longrightarrow> front i oom w = (Inl EmptyCollection, w)) \<and>
         (front_const i w = Inl EmptyCollection \<longleftrightarrow> empty_kv w x)"
proof (cases "queue_of w x = []")
  case True
  then show ?thesis using front_empty [OF inv lv True, of oom] front_const_spec [OF inv lv]
    by (simp add: empty_queue)
next
  case False
  from front_spec [OF inv lv False, of oom None] front_const_spec [OF inv lv] False
  show ?thesis by (auto simp: empty_queue)
qed

lemma back_errors:
  assumes inv: "winv w" and lv: "live w i x"
  shows "(fst (back_kv i oom w) = Inl EmptyCollection \<longleftrightarrow> empty_kv w x) \<and>
         (empty_kv w x \<longrightarrow> back_kv i oom w = (Inl EmptyCollection, w)) \<and>
         (back_const i w = Inl EmptyCollection \<longleftrightarrow> empty_kv w x)"
proof (cases "queue_of w x = []")
  case True
  then show ?thesis using back_empty [OF inv lv True, of oom] back_const_spec [OF inv lv]
    by (simp add: empty_queue)
next
  case False
  from back_spec [OF inv lv False, of oom None] back_const_spec [OF inv lv] False
  show ?thesis by (auto simp: empty_queue)
qed

lemma missing_iff: "winv w \<Longrightarrow> live w i x \<Longrightarrow> missing w x k \<longleftrightarrow> k \<notin> fst ` set (queue_of w x)"
  by (auto simp: missing_def empty_queue empty_count)

lemma key_errorI:
  assumes inv: "winv w" and lv: "live w i x"
    and e: "queue_of w x = [] \<Longrightarrow> r = (Inl KeyNotFound, w)"
    and a: "k \<notin> fst ` set (queue_of w x) \<Longrightarrow>
         \<exists>e w'. r = (Inl e, w') \<and> (e = KeyNotFound \<or> e = bad_alloc \<and> oom AtClone) \<and>
                unchanged w w' \<and> objs w' = objs w"
    and p: "k \<in> fst ` set (queue_of w x) \<Longrightarrow> fst r \<noteq> Inl KeyNotFound"
  shows "key_error w i x k oom r"
proof -
  have 1: "fst r = Inl KeyNotFound \<longrightarrow> missing w x k"
    using p by (auto simp: missing_iff [OF inv lv])
  have 2: "missing w x k \<longrightarrow>
        (fst r = Inl KeyNotFound \<or> fst r = Inl bad_alloc \<and> oom AtClone) \<and>
        live (snd r) i x \<and> observe (snd r) x = observe w x"
  proof
    assume "missing w x k"
    then have "k \<notin> fst ` set (queue_of w x)" by (simp add: missing_iff [OF inv lv])
    from a [OF this] obtain e w' where r: "r = (Inl e, w')"
        "e = KeyNotFound \<or> e = bad_alloc \<and> oom AtClone" "unchanged w w'" "objs w' = objs w"
      by blast
    from unchanged_observe [OF inv lv r(3,4)] r(1,2)
    show "(fst r = Inl KeyNotFound \<or> fst r = Inl bad_alloc \<and> oom AtClone) \<and>
          live (snd r) i x \<and> observe (snd r) x = observe w x"
      by auto
  qed
  have 3: "empty_kv w x \<longrightarrow> r = (Inl KeyNotFound, w)" using e by (simp add: empty_queue)
  from 1 2 3 show ?thesis unfolding key_error_def by blast
qed

lemma pop_key_errors:
  assumes inv: "winv w" and lv: "live w i x"
  shows "key_error w i x k oom (pop_key k i oom w)"
proof (rule key_errorI [OF inv lv])
  show "queue_of w x = [] \<Longrightarrow> pop_key k i oom w = (Inl KeyNotFound, w)"
    by (rule pop_key_empty [OF inv lv])
  show "k \<notin> fst ` set (queue_of w x) \<Longrightarrow>
         \<exists>e w'. pop_key k i oom w = (Inl e, w') \<and> (e = KeyNotFound \<or> e = bad_alloc \<and> oom AtClone) \<and>
                unchanged w w' \<and> objs w' = objs w"
    by (rule pop_key_absent [OF inv lv])
  show "k \<in> fst ` set (queue_of w x) \<Longrightarrow> fst (pop_key k i oom w) \<noteq> Inl KeyNotFound"
    using pop_key_spec [OF inv lv, of k oom] by auto
qed

lemma move_to_back_errors:
  assumes inv: "winv w" and lv: "live w i x"
  shows "key_error w i x k oom (move_to_back k i oom w)"
proof (rule key_errorI [OF inv lv])
  show "queue_of w x = [] \<Longrightarrow> move_to_back k i oom w = (Inl KeyNotFound, w)"
    by (rule move_to_back_empty [OF inv lv])
  show "k \<notin> fst ` set (queue_of w x) \<Longrightarrow>
         \<exists>e w'. move_to_back k i oom w = (Inl e, w') \<and> (e = KeyNotFound \<or> e = bad_alloc \<and> oom AtClone) \<and>
                unchanged w w' \<and> objs w' = objs w"
    by (rule move_to_back_absent [OF inv lv])
  show "k \<in> fst ` set (queue_of w x) \<Longrightarrow> fst (move_to_back k i oom w) \<noteq> Inl KeyNotFound"
    using move_to_back_spec [OF inv lv, of k oom] by auto
qed

lemma first_errors:
  assumes inv: "winv w" and lv: "live w i x"
  shows "key_error w i x k oom (first k i oom w)"
proof (rule key_errorI [OF inv lv])
  show "queue_of w x = [] \<Longrightarrow> first k i oom w = (Inl KeyNotFound, w)"
    by (rule first_empty [OF inv lv])
  show "k \<notin> fst ` set (queue_of w x) \<Longrightarrow>
         \<exists>e w'. first k i oom w = (Inl e, w') \<and> (e = KeyNotFound \<or> e = bad_alloc \<and> oom AtClone) \<and>
                unchanged w w' \<and> objs w' = objs w"
    by (rule first_absent [OF inv lv])
  show "k \<in> fst ` set (queue_of w x) \<Longrightarrow> fst (first k i oom w) \<noteq> Inl KeyNotFound"
    using first_spec [OF inv lv, of k oom None] by auto
qed

lemma last_errors:
  assumes inv: "winv w" and lv: "live w i x"
  shows "key_error w i x k oom (last_kv k i oom w)"
proof (rule key_errorI [OF inv lv])
  show "queue_of w x = [] \<Longrightarrow> last_kv k i oom w = (Inl KeyNotFound, w)"
    by (rule last_empty [OF inv lv])
  show "k \<notin> fst ` set (queue_of w x) \<Longrightarrow>
         \<exists>e w'. last_kv k i oom w = (Inl e, w') \<and> (e = KeyNotFound \<or> e = bad_alloc \<and> oom AtClone) \<and>
                unchanged w w' \<and> objs w' = objs w"
    by (rule last_absent [OF inv lv])
  show "k \<in> fst ` set (queue_of w x) \<Longrightarrow> fst (last_kv k i oom w) \<noteq> Inl KeyNotFound"
    using last_spec [OF inv lv, of k oom None] by auto
qed

lemma const_key_errors:
  assumes inv: "winv w" and lv: "live w i x"
  shows "(first_const k i w = Inl KeyNotFound \<longleftrightarrow> missing w x k) \<and>
         (last_const k i w = Inl KeyNotFound \<longleftrightarrow> missing w x k)"
  using first_const_spec [OF inv lv, of k] last_const_spec [OF inv lv, of k]
  by (simp add: missing_iff [OF inv lv])

text \<open>
  C7 (error conditions).  For a live object of a reachable world:
  \<^item> \<^verbatim>\<open>pop()\<close>, \<^verbatim>\<open>front()\<close> and \<^verbatim>\<open>back()\<close>, const or not, throw
    \<^verbatim>\<open>invalid_argument("Empty queue")\<close> exactly when the queue is empty, and then the world is
    left as it was;
  \<^item> the const \<^verbatim>\<open>first(k)\<close> and \<^verbatim>\<open>last(k)\<close> throw
    \<^verbatim>\<open>invalid_argument("Key not found")\<close> exactly when the queue is empty or \<^verbatim>\<open>count(k)\<close>
    is zero;
  \<^item> \<^verbatim>\<open>pop(k)\<close>, \<^verbatim>\<open>move_to_back(k)\<close> and the mutable \<^verbatim>\<open>first(k)\<close> and
    \<^verbatim>\<open>last(k)\<close> throw "Key not found" only when the queue is empty or \<^verbatim>\<open>count(k)\<close> is zero;
    in that case they never succeed and leave the object with the same size, counts, queue and
    keys; and they throw "Key not found" exactly in that case whenever the deep clone that
    precedes the lookup on shared storage does not run out of memory (it throws
    \<^verbatim>\<open>bad_alloc\<close> when it does).  On an empty queue they throw "Key not found" at once and
    the world is left as it was.
\<close>

theorem error_conditions:
  assumes "run prog init_world = Some w" and "live w i x"
  shows "(fst (pop i oom w) = Inl EmptyCollection \<longleftrightarrow> empty_kv w x) \<and>
         (fst (front i oom w) = Inl EmptyCollection \<longleftrightarrow> empty_kv w x) \<and>
         (front_const i w = Inl EmptyCollection \<longleftrightarrow> empty_kv w x) \<and>
         (fst (back_kv i oom w) = Inl EmptyCollection \<longleftrightarrow> empty_kv w x) \<and>
         (back_const i w = Inl EmptyCollection \<longleftrightarrow> empty_kv w x) \<and>
         (empty_kv w x \<longrightarrow>
            pop i oom w = (Inl EmptyCollection, w) \<and> front i oom w = (Inl EmptyCollection, w) \<and>
            back_kv i oom w = (Inl EmptyCollection, w)) \<and>
         (first_const k i w = Inl KeyNotFound \<longleftrightarrow> missing w x k) \<and>
         (last_const k i w = Inl KeyNotFound \<longleftrightarrow> missing w x k) \<and>
         key_error w i x k oom (pop_key k i oom w) \<and>
         key_error w i x k oom (move_to_back k i oom w) \<and>
         key_error w i x k oom (first k i oom w) \<and>
         key_error w i x k oom (last_kv k i oom w)"
proof -
  have inv: "winv w" by (rule reachable_winv [OF assms(1)])
  note lv = assms(2)
  from pop_errors [OF inv lv, of oom] front_errors [OF inv lv, of oom]
    back_errors [OF inv lv, of oom] const_key_errors [OF inv lv, of k]
    pop_key_errors [OF inv lv, of k oom] move_to_back_errors [OF inv lv, of k oom]
    first_errors [OF inv lv, of k oom] last_errors [OF inv lv, of k oom]
  show ?thesis by blast
qed

theorem error_conditions_witness:
  "pop 0 no_oom \<lparr>cells = [empty_container], objs = [Some \<lparr>unshareable = False, dataPtr = Some 0\<rparr>]\<rparr>
     = (Inl EmptyCollection,
        \<lparr>cells = [empty_container :: (nat, nat) container_t],
         objs = [Some \<lparr>unshareable = False, dataPtr = Some 0\<rparr>]\<rparr>) \<and>
   pop_key (5::nat) 0 no_oom
       \<lparr>cells = [empty_container], objs = [Some \<lparr>unshareable = False, dataPtr = Some 0\<rparr>]\<rparr>
     = (Inl KeyNotFound,
        \<lparr>cells = [empty_container :: (nat, nat) container_t],
         objs = [Some \<lparr>unshareable = False, dataPtr = Some 0\<rparr>]\<rparr>) \<and>
   first_const (5::nat) 0
       \<lparr>cells = [empty_container :: (nat, nat) container_t],
        objs = [Some \<lparr>unshareable = False, dataPtr = Some 0\<rparr>]\<rparr>
     = Inl KeyNotFound"
proof -
  let ?x = "\<lparr>unshareable = False, dataPtr = Some 0\<rparr>"
  let ?w = "\<lparr>cells = [empty_container :: (nat, nat) container_t], objs = [Some ?x]\<rparr>"
  have r: "run [([], Ctor)] init_world = Some ?w" by code_simp
  have l: "live ?w 0 ?x" by (simp add: live_def)
  have e: "empty_kv ?w ?x" by (simp add: empty_kv_def empty_container_def)
  then have m: "missing ?w ?x 5" by (simp add: missing_def)
  from error_conditions [OF r l, of no_oom 5] e m
  show ?thesis by (simp add: key_error_def)
qed

subsection \<open>Allocation failures surface\<close>

lemma two_in_filter:
  assumes "i < length xs" "j < length xs" "i \<noteq> j" "P (xs ! i)" "P (xs ! j)"
  shows "2 \<le> length (filter P xs)"
proof -
  have "{i, j} \<subseteq> {n. n < length xs \<and> P (xs ! n)}" using assms by auto
  then have "card {i, j} \<le> card {n. n < length xs \<and> P (xs ! n)}"
    by (intro card_mono) auto
  then show ?thesis using assms(3) by (simp add: length_filter_conv_card)
qed

lemma two_sharers:
  assumes "live w i x" "live w j y" "i \<noteq> j" "dataPtr x = Some p" "dataPtr y = Some p"
  shows "2 < use_count w (copy_guard i x) (dataPtr x)"
proof -
  have "2 \<le> length (filter (points_at p) (objs w))"
    using assms by (intro two_in_filter [of i _ j]) (auto simp: live_def points_at_def)
  then show ?thesis using assms(4) by (simp add: use_count_def copy_guard_def)
qed

lemma clone_forced:
  assumes "live w i x" "live w j y" "i \<noteq> j" "dataPtr x = Some p" "dataPtr y = Some p"
    and "\<not> unshareable x" "oom AtClone"
  shows "guarded_call mark body i x oom w = (Inl bad_alloc, w)"
  using two_sharers [OF assms(1-5)] assms(4,6,7) rollback_same [OF assms(1)]
  by (simp add: guarded_call_def aboutToModify_def make_shared_copy_def)

lemma clone_forced_exec:
  assumes inv: "winv w" and lv: "live w i x" and t: "target op = Some i"
    and sh: "live w j y" "j \<noteq> i" "dataPtr x = Some p" "dataPtr y = Some p"
    and np: "\<not> unshareable x" and oom: "oom AtClone"
    and past: "queue_of w x = [] \<longrightarrow> (\<exists>k v. op = Push i k v) \<or> op = Clear i"
  shows "exec oom op w = (Some bad_alloc, w)"
proof -
  have g: "\<And>mark body. guarded_call mark body i x oom w = (Inl bad_alloc, w)"
    using clone_forced [where oom = oom, OF lv sh(1) _ sh(3,4) np oom] sh(2) by auto
  have s: "self i w = Inr x" by (rule self_live [OF inv lv])
  show ?thesis
    using t past
    by (cases op)
      (auto simp: push_def pop_def pop_key_def move_to_back_def clear_def front_def back_kv_def
        first_def last_kv_def s g sh(3) empty_queue)
qed

lemma push_body_oom:
  "oom AtQueueNode \<or> oom AtBucketNode \<Longrightarrow> fst (push_body k v oom c) = Inl bad_alloc"
  by (auto simp: push_body_def Let_def split: option.splits)

lemma guarded_call_body_fails:
  assumes inv: "winv w" and lv: "live w i x" and ptr: "dataPtr x = Some p"
    and b: "\<And>c. fst (body c) = Inl e"
  shows "fst (guarded_call mark body i x oom w) = Inl e \<or>
         fst (guarded_call mark body i x oom w) = Inl bad_alloc"
proof (rule guarded_call_elim [OF inv lv ptr, of oom mark body], goal_cases)
  case 1
  then show ?case by simp
next
  case (2 q w1)
  obtain r c where rc: "body (cells w1 ! q) = (r, c)" by (cases "body (cells w1 ! q)")
  with b [of "cells w1 ! q"] have "r = Inl e" by simp
  with 2(2) rc show ?case by (simp add: finish_def)
qed

lemma fst_void_result: "fst (void_result r) = (case fst r of Inl e \<Rightarrow> Inl e | Inr a \<Rightarrow> Inr ())"
  by (cases r) (auto simp: void_result_def split: sum.splits)

lemma push_oom:
  assumes inv: "winv w" and lv: "live w i x" and oom: "oom AtQueueNode \<or> oom AtBucketNode"
  shows "fst (push k v i oom w) = Inl bad_alloc"
proof (cases "dataPtr x")
  case (Some p)
  have p: "push k v i oom w = void_result (guarded_call False (push_body k v oom) i x oom w)"
    by (simp add: push_def self_live [OF inv lv] Some)
  have "\<And>c. fst (push_body k v oom c) = Inl bad_alloc" by (rule push_body_oom [OF oom])
  from guarded_call_body_fails [where body = "push_body k v oom" and e = bad_alloc,
      OF inv lv Some this, of False oom]
  show ?thesis unfolding p by (auto simp: fst_void_result)
next
  case None
  show ?thesis
  proof (cases "oom AtMakeShared")
    case True
    then show ?thesis by (simp add: push_def self_live [OF inv lv] None make_shared_empty_def)
  next
    case False
    let ?x1 = "x\<lparr>dataPtr := Some (length (cells w))\<rparr>"
    let ?w0 = "set_obj i ?x1 (w\<lparr>cells := cells w @ [empty_container]\<rparr>)"
    from ensure_storage [OF inv lv None]
    have w0: "winv ?w0" "live ?w0 i ?x1" by auto
    have p: "push k v i oom w = void_result (guarded_call False (push_body k v oom) i ?x1 oom ?w0)"
      using False by (simp add: push_def self_live [OF inv lv] None make_shared_empty_def Let_def)
    have ptr: "dataPtr ?x1 = Some (length (cells w))" by simp
    have "\<And>c. fst (push_body k v oom c) = Inl bad_alloc" by (rule push_body_oom [OF oom])
    from guarded_call_body_fails [where body = "push_body k v oom" and e = bad_alloc,
        OF w0 ptr this, of False oom]
    show ?thesis unfolding p by (auto simp: fst_void_result)
  qed
qed



subsection \<open>Other objects are not touched\<close>

lemma snapshot_at:
  assumes "o' < length (snapshot w)" "snapshot w ! o' = Some (u, q)"
  shows "\<exists>z. live w o' z \<and> unshareable z = u \<and> queue_of w z = q"
proof -
  have o: "o' < length (objs w)" using assms(1) by simp
  then have "map_option (snap_obj w) (objs w ! o') = Some (u, q)"
    using assms(2) by (simp add: snapshot_def)
  then obtain z where "objs w ! o' = Some z" "snap_obj w z = (u, q)" by auto
  then show ?thesis using o by (auto simp: live_def snap_obj_def)
qed

lemma snapshot_of_live: "live w j y \<Longrightarrow> snapshot w ! j = Some (unshareable y, queue_of w y)"
  by (simp add: snapshot_def live_def snap_obj_def)

lemma copy_made:
  assumes inv: "winv w" and a: "live w a xa"
    and cp: "(cp = CopyCtor a \<and> b = length (objs w)) \<or>
             (cp = CopyAssign b a \<and> b \<noteq> a \<and> (\<exists>xb. live w b xb))"
    and e: "exec oom cp w = (None, w1)"
  shows "winv w1 \<and> a < length (snapshot w1) \<and> b < length (snapshot w1) \<and> a \<noteq> b \<and>
         snapshot w1 ! a = Some (unshareable xa, queue_of w xa) \<and>
         snapshot w1 ! b = Some (False, queue_of w xa)"
proof -
  have al: "a < length (objs w)" by (rule live_bound [OF a])
  have sa: "snapshot w ! a = Some (unshareable xa, queue_of w xa)" by (rule snapshot_of_live [OF a])
  from cp show ?thesis
  proof
    assume c: "cp = CopyCtor a \<and> b = length (objs w)"
    with e have "fst (copy_ctor a oom w) \<noteq> Inl undefined_behaviour"
      "fst (copy_ctor a oom w) \<noteq> Inl bad_alloc" "snd (copy_ctor a oom w) = w1"
      by (cases "copy_ctor a oom w"; auto simp: outcome_def split: sum.splits)+
    with copy_ctor_spec [OF inv a, of oom]
    have "winv w1" "snapshot w1 = snapshot w @ [Some (False, queue_of w xa)]" by auto
    then show ?thesis using al sa c by (simp add: nth_append)
  next
    assume c: "cp = CopyAssign b a \<and> b \<noteq> a \<and> (\<exists>xb. live w b xb)"
    then obtain xb where b: "live w b xb" by blast
    have bl: "b < length (objs w)" by (rule live_bound [OF b])
    from e c have "fst (copy_assign b a oom w) \<noteq> Inl undefined_behaviour"
      "fst (copy_assign b a oom w) \<noteq> Inl bad_alloc" "snd (copy_assign b a oom w) = w1"
      by (cases "copy_assign b a oom w"; auto simp: outcome_def split: sum.splits)+
    with copy_assign_spec [OF inv b a, of oom]
    have "winv w1" "snapshot w1 = (snapshot w)[b := Some (False, queue_of w xa)] @ [None]" by auto
    then show ?thesis using al bl sa c by (simp add: nth_append)
  qed
qed

subsection \<open>Statements that are not about an object\<close>

lemma write_ref_winv:
  assumes inv: "winv w"
  shows "winv (write_ref p n v w)"
proof (rule winvI)
  fix j y q
  assume "live (write_ref p n v w) j y" "dataPtr y = Some q"
  then show "q < length (cells (write_ref p n v w))"
    using winv_range [OF inv, of j y q] by (simp add: write_ref_def set_cell_def)
next
  fix a xa pa b xb
  assume "live (write_ref p n v w) a xa" "unshareable xa" "dataPtr xa = Some pa"
    "live (write_ref p n v w) b xb" "b \<noteq> a"
  then show "dataPtr xb \<noteq> Some pa"
    using winv_pinned [OF inv, of a xa pa b xb] by (simp add: write_ref_def set_cell_def)
next
  fix q
  assume "q < length (cells (write_ref p n v w))"
  then have q: "q < length (cells w)" by (simp add: write_ref_def set_cell_def)
  show "cinv (cells (write_ref p n v w) ! q)"
  proof (cases "q = p")
    case True
    then show ?thesis
      using q write_node_cinv [OF winv_cinv [OF inv q], of n v]
      by (simp add: write_ref_def set_cell_def)
  next
    case False
    then show ?thesis using q winv_cinv [OF inv q] by (simp add: write_ref_def set_cell_def)
  qed
qed

lemma leaves_alone_target: "target op = Some i \<Longrightarrow> leaves_alone u op \<Longrightarrow> i \<noteq> u"
  by (cases op) auto

lemma move_assign_frame:
  assumes inv: "winv w" and t: "live w t x" and s: "live w s y"
    and r: "move_assign t s oom w = (r, w')" and nub: "r \<noteq> Inl undefined_behaviour"
    and u: "u < length (objs w)" "u \<noteq> t" "u \<noteq> s"
  shows "length (snapshot w) \<le> length (snapshot w') \<and> snapshot w' ! u = snapshot w ! u"
proof -
  let ?n = "length (objs w)"
  let ?z = "\<lparr>unshareable = unshareable y, dataPtr = dataPtr y\<rparr>"
  from move_ctor_spec [OF inv s]
  obtain w1 where w1: "move_ctor s w = (Inr ?n, w1)" "winv w1"
      "objs w1 = (objs w)[s := Some (y\<lparr>dataPtr := None\<rparr>)] @ [Some ?z]"
      "snapshot w1 = (snapshot w)[s := Some (unshareable y, [])]
                           @ [Some (unshareable y, queue_of w y)]"
    by blast
  have tl: "t < ?n" by (rule live_bound [OF t])
  obtain x1 where t1: "live w1 t x1"
    using t tl by (cases "t = s") (auto simp: live_def w1(3) nth_append)
  have n1: "live w1 ?n ?z" by (simp add: live_def w1(3) nth_append)
  have m: "move_assign t s oom w =
      (fst (operator_assign t ?n oom w1), snd (dtor ?n (snd (operator_assign t ?n oom w1))))"
    by (simp add: move_assign_def self_live [OF inv t] w1(1) split: prod.splits)
  have l: "length (snapshot w) = ?n" by (simp add: snapshot_def)
  have s1: "length (snapshot w1) = Suc ?n" "snapshot w1 ! u = snapshot w ! u"
    using u l by (simp_all add: w1(4) nth_append)
  from operator_assign_spec [OF w1(2) t1 n1, of oom]
  show ?thesis
  proof (elim disjE exE conjE, goal_cases)
    case 1
    then show ?case using r nub m by simp
  next
    case 2
    from dtor_spec [OF w1(2) n1] obtain w3 where
      "dtor ?n w1 = (Inr (), w3)" "snapshot w3 = (snapshot w1)[?n := None]" by blast
    with 2 r m have "snapshot w' = (snapshot w1)[?n := None]" by simp
    then show ?case using s1 u l by simp
  next
    case (3 w2 q)
    have "live w2 ?n ?z" using n1 tl by (simp add: live_def 3(4) nth_list_update)
    from dtor_spec [OF 3(2) this] obtain w3 where
      "dtor ?n w2 = (Inr (), w3)" "snapshot w3 = (snapshot w2)[?n := None]" by blast
    with 3(1) r m have "snapshot w' = (snapshot w2)[?n := None]" by simp
    then show ?case using s1 u l 3(3) by simp
  qed
qed

lemma exec_frame:
  assumes inv: "winv w" and lu: "live w u z" and la: "leaves_alone u op"
    and ex: "exec oom op w = (r, w')" and nub: "r \<noteq> Some undefined_behaviour"
  shows "length (snapshot w) \<le> length (snapshot w') \<and> snapshot w' ! u = snapshot w ! u"
proof (cases "target op")
  case (Some i)
  have iu: "i \<noteq> u" by (rule leaves_alone_target [OF Some la])
  show ?thesis
  proof (cases "self i w")
    case (Inl e)
    with exec_dead [OF Some Inl, of oom] ex show ?thesis by simp
  next
    case (Inr x)
    from exec_mutation [OF inv self_Inr [OF Inr] Some, of oom] ex
    have "step_ok w i oom r w'" by simp
    from step_ok_frame [OF this] iu show ?thesis by simp
  qed
next
  case None
  have ul: "u < length (objs w)" by (rule live_bound [OF lu])
  have l: "u < length (snapshot w)" using ul by simp
  show ?thesis
  proof (cases op)
    case Ctor
    with ctor_spec [OF inv, of oom] ex ul l show ?thesis by (auto simp: nth_append simp del: snapshot_length)
  next
    case (CopyCtor j)
    show ?thesis
    proof (cases "self j w")
      case (Inl e)
      with ex CopyCtor show ?thesis by (simp add: copy_ctor_def)
    next
      case (Inr y)
      from copy_ctor_spec [OF inv self_Inr [OF Inr], of oom] ex CopyCtor ul l
      show ?thesis by (auto simp: nth_append simp del: snapshot_length)
    qed
  next
    case (MoveCtor j)
    with la have ju: "j \<noteq> u" by simp
    show ?thesis
    proof (cases "self j w")
      case (Inl e)
      with ex MoveCtor show ?thesis by (simp add: move_ctor_def)
    next
      case (Inr y)
      from move_ctor_spec [OF inv self_Inr [OF Inr]] ex MoveCtor ul l ju
      show ?thesis by (auto simp: nth_append simp del: snapshot_length)
    qed
  next
    case (CopyAssign t j)
    with la have tu: "t \<noteq> u" by simp
    show ?thesis
    proof (cases "self t w")
      case (Inl e)
      with ex CopyAssign show ?thesis by (simp add: copy_assign_def)
    next
      case tx: (Inr x)
      show ?thesis
      proof (cases "self j w")
        case (Inl e)
        with ex CopyAssign tx show ?thesis by (simp add: copy_assign_def copy_ctor_def)
      next
        case (Inr y)
        from copy_assign_spec [OF inv self_Inr [OF tx] self_Inr [OF Inr], of oom] ex CopyAssign
          ul l tu
        show ?thesis by (auto simp: nth_append simp del: snapshot_length)
      qed
    qed
  next
    case (MoveAssign t j)
    with la have tu: "u \<noteq> t" "u \<noteq> j" by auto
    show ?thesis
    proof (cases "self t w")
      case (Inl e)
      with ex MoveAssign show ?thesis by (simp add: move_assign_def)
    next
      case tx: (Inr x)
      show ?thesis
      proof (cases "self j w")
        case (Inl e)
        with ex MoveAssign tx show ?thesis by (simp add: move_assign_def move_ctor_def)
      next
        case (Inr y)
        obtain r0 where r0: "move_assign t j oom w = (r0, w')"
          "r = (case r0 of Inl e \<Rightarrow> Some e | Inr a \<Rightarrow> None)"
          using ex MoveAssign
          by (cases "move_assign t j oom w") (auto simp: outcome_def split: sum.splits)
        have "r0 \<noteq> Inl undefined_behaviour" using r0(2) nub by auto
        from move_assign_frame [OF inv self_Inr [OF tx] self_Inr [OF Inr] r0(1) this ul tu]
        show ?thesis .
      qed
    qed
  next
    case (Dtor j)
    with la have ju: "j \<noteq> u" by simp
    show ?thesis
    proof (cases "self j w")
      case (Inl e)
      with ex Dtor show ?thesis by (simp add: dtor_def)
    next
      case (Inr y)
      from dtor_spec [OF inv self_Inr [OF Inr]] ex Dtor ju l show ?thesis
        by (auto simp del: snapshot_length)
    qed
  qed (use None in simp_all)
qed

lemma perform_winv:
  assumes inv: "winv w" and p: "perform s (w, rs) = (r, w', rs')"
    and nub: "r \<noteq> Some undefined_behaviour"
  shows "winv w'"
proof (cases s)
  case (Call sites op)
  with p have "exec (\<lambda>a. a \<in> set sites) op w = (r, w')" by (simp split: prod.splits)
  from exec_winv [OF inv this nub] show ?thesis .
next
  case (Store n v)
  with p nub inv show ?thesis
    by (auto simp: write_ref_winv split: if_splits option.splits)
qed

lemma write_ref_frame:
  assumes "live w u z" "dataPtr z \<noteq> Some p"
  shows "live (write_ref p n v w) u z \<and> snapshot (write_ref p n v w) ! u = snapshot w ! u"
proof -
  have l: "live (write_ref p n v w) u z" using assms(1) by (simp add: write_ref_def set_cell_def)
  have "queue_of (write_ref p n v w) z = queue_of w z"
    using assms(2) by (auto simp: queue_of_def write_ref_def set_cell_def split: option.splits)
  then show ?thesis
    using l snapshot_of_live [OF l] snapshot_of_live [OF assms(1)] by simp
qed

subsection \<open>Only the object of a call is changed\<close>

lemma guarded_call_keeps:
  "u \<noteq> i \<Longrightarrow> live w u z \<Longrightarrow> live (snd (guarded_call mark body i x oom w)) u z"
  by (auto simp: guarded_call_def aboutToModify_def guard_rollback_def copy_guard_def set_obj_def
      set_cell_def make_shared_copy_def Let_def live_def
      split: sum.splits option.splits prod.splits)

lemma guarded_call_pins:
  "guarded_call True body i x oom w = (Inr (a, p), w') \<Longrightarrow> i < length (objs w) \<Longrightarrow>
   live w' i \<lparr>unshareable = True, dataPtr = Some p\<rparr>"
  by (auto simp: guarded_call_def aboutToModify_def guard_rollback_def copy_guard_def set_obj_def
      set_cell_def make_shared_copy_def Let_def live_def
      split: sum.splits option.splits prod.splits if_splits)

lemma snd_void_result [simp]: "snd (void_result r) = snd r"
  by (cases r) (auto simp: void_result_def split: sum.splits)

lemma live_and_write [simp]: "live (snd (and_write vo r)) u z = live (snd r) u z"
  by (cases r) (auto simp: and_write_def write_ref_def set_cell_def split: sum.splits option.splits)

lemma snd_outcome [simp]: "snd (outcome r) = snd r"
  by (cases r) (auto simp: outcome_def split: sum.splits)

lemma mutation_keeps:
  assumes t: "target op = Some i" and iu: "u \<noteq> i" and lu: "live w u z"
  shows "live (snd (exec oom op w)) u z"
proof (cases "self i w")
  case (Inl e)
  with exec_dead [OF t Inl, of oom] lu show ?thesis by simp
next
  case (Inr x)
  have g: "\<And>mark body x' w'. live w' u z \<Longrightarrow>
             live (snd (guarded_call mark body i x' oom w')) u z"
    by (rule guarded_call_keeps [OF iu])
  have e: "live (w\<lparr>cells := cells w @ [empty_container]\<rparr>) u z" using lu by simp
  have s: "\<And>x' w'. live w' u z \<Longrightarrow> live (set_obj i x' w') u z"
    using iu by (simp add: set_obj_def live_def)
  show ?thesis
  proof (cases op)
    case (Push j k v)
    with t have "j = i" by simp
    then show ?thesis using Push Inr lu s [OF e]
      by (auto simp: push_def make_shared_empty_def Let_def g split: option.splits)
  next
    case (Pop j)
    with t have "j = i" by simp
    then show ?thesis using Pop Inr lu by (simp add: pop_def g)
  next
    case (PopKey j k)
    with t have "j = i" by simp
    then show ?thesis using PopKey Inr lu by (simp add: pop_key_def g)
  next
    case (MoveToBack j k)
    with t have "j = i" by simp
    then show ?thesis using MoveToBack Inr lu by (simp add: move_to_back_def g)
  next
    case (Clear j)
    with t have "j = i" by simp
    then show ?thesis using Clear Inr lu by (simp add: clear_def g)
  next
    case (Front j vo)
    with t have "j = i" by simp
    then show ?thesis using Front Inr lu by (simp add: front_def g)
  next
    case (Back j vo)
    with t have "j = i" by simp
    then show ?thesis using Back Inr lu by (simp add: back_kv_def g)
  next
    case (First j k vo)
    with t have "j = i" by simp
    then show ?thesis using First Inr lu by (simp add: first_def g)
  next
    case (Last j k vo)
    with t have "j = i" by simp
    then show ?thesis using Last Inr lu by (simp add: last_kv_def g)
  qed (use t in simp_all)
qed

lemma move_assign_keeps:
  assumes inv: "winv w" and t: "live w t x" and s: "live w s y"
    and r: "move_assign t s oom w = (r, w')" and nub: "r \<noteq> Inl undefined_behaviour"
    and u: "live w u z" "u \<noteq> t" "u \<noteq> s"
  shows "live w' u z"
proof -
  let ?n = "length (objs w)"
  let ?z = "\<lparr>unshareable = unshareable y, dataPtr = dataPtr y\<rparr>"
  from move_ctor_spec [OF inv s]
  obtain w1 where w1: "move_ctor s w = (Inr ?n, w1)" "winv w1"
      "objs w1 = (objs w)[s := Some (y\<lparr>dataPtr := None\<rparr>)] @ [Some ?z]"
    by blast
  have tl: "t < ?n" by (rule live_bound [OF t])
  have ul: "u < ?n" by (rule live_bound [OF u(1)])
  obtain x1 where t1: "live w1 t x1"
    using t tl by (cases "t = s") (auto simp: live_def w1(3) nth_append)
  have n1: "live w1 ?n ?z" by (simp add: live_def w1(3) nth_append)
  have u1: "live w1 u z" using u ul by (simp add: live_def w1(3) nth_append)
  have m: "move_assign t s oom w =
      (fst (operator_assign t ?n oom w1), snd (dtor ?n (snd (operator_assign t ?n oom w1))))"
    by (simp add: move_assign_def self_live [OF inv t] w1(1) split: prod.splits)
  have l1: "length (objs w1) = Suc ?n" by (simp add: w1(3))
  from operator_assign_spec [OF w1(2) t1 n1, of oom]
  show ?thesis
  proof (elim disjE exE conjE, goal_cases)
    case 1
    then show ?case using r nub m by simp
  next
    case 2
    from dtor_spec [OF w1(2) n1] obtain w3 where
      "dtor ?n w1 = (Inr (), w3)" "objs w3 = (objs w1)[?n := None]" by blast
    with 2 r m have "objs w' = (objs w1)[?n := None]" by simp
    then show ?case using u1 ul by (simp add: live_def)
  next
    case (3 w2 q)
    have "live w2 ?n ?z" using n1 tl by (simp add: live_def 3(4) nth_list_update)
    from dtor_spec [OF 3(2) this] obtain w3 where
      "dtor ?n w2 = (Inr (), w3)" "objs w3 = (objs w2)[?n := None]" by blast
    with 3(1) r m have "objs w' = (objs w2)[?n := None]" by simp
    then show ?case using u1 ul u(2) l1 by (simp add: live_def 3(4))
  qed
qed

lemma exec_keeps:
  assumes inv: "winv w" and lu: "live w u z" and la: "leaves_alone u op"
    and ex: "exec oom op w = (r, w')" and nub: "r \<noteq> Some undefined_behaviour"
  shows "live w' u z"
proof (cases "target op")
  case (Some i)
  have "u \<noteq> i" using leaves_alone_target [OF Some la] by simp
  from mutation_keeps [OF Some this lu, of oom] ex show ?thesis by simp
next
  case None
  have ul: "u < length (objs w)" by (rule live_bound [OF lu])
  show ?thesis
  proof (cases op)
    case Ctor
    with ex lu ul show ?thesis
      by (auto simp: ctor_def make_shared_empty_def new_obj_def live_def nth_append
          split: if_splits)
  next
    case (CopyCtor j)
    show ?thesis
    proof (cases "self j w")
      case (Inl e)
      with ex CopyCtor lu show ?thesis by (simp add: copy_ctor_def)
    next
      case (Inr y)
      from copy_ctor_spec [OF inv self_Inr [OF Inr], of oom] ex CopyCtor ul lu
      show ?thesis by (auto simp: live_def)
    qed
  next
    case (MoveCtor j)
    with la have ju: "j \<noteq> u" by simp
    show ?thesis
    proof (cases "self j w")
      case (Inl e)
      with ex MoveCtor lu show ?thesis by (simp add: move_ctor_def)
    next
      case (Inr y)
      from move_ctor_spec [OF inv self_Inr [OF Inr]] ex MoveCtor ul lu ju
      show ?thesis by (auto simp: live_def nth_append)
    qed
  next
    case (CopyAssign t j)
    with la have tu: "t \<noteq> u" by simp
    show ?thesis
    proof (cases "self t w")
      case (Inl e)
      with ex CopyAssign lu show ?thesis by (simp add: copy_assign_def)
    next
      case tx: (Inr x)
      show ?thesis
      proof (cases "self j w")
        case (Inl e)
        with ex CopyAssign tx lu show ?thesis by (simp add: copy_assign_def copy_ctor_def)
      next
        case (Inr y)
        from copy_assign_spec [OF inv self_Inr [OF tx] self_Inr [OF Inr], of oom] ex CopyAssign
          ul lu tu
        show ?thesis by (auto simp: live_def nth_append)
      qed
    qed
  next
    case (MoveAssign t j)
    with la have tu: "u \<noteq> t" "u \<noteq> j" by auto
    show ?thesis
    proof (cases "self t w")
      case (Inl e)
      with ex MoveAssign lu show ?thesis by (simp add: move_assign_def)
    next
      case tx: (Inr x)
      show ?thesis
      proof (cases "self j w")
        case (Inl e)
        with ex MoveAssign tx lu show ?thesis by (simp add: move_assign_def move_ctor_def)
      next
        case (Inr y)
        obtain r0 where r0: "move_assign t j oom w = (r0, w')"
          "r = (case r0 of Inl e \<Rightarrow> Some e | Inr a \<Rightarrow> None)"
          using ex MoveAssign
          by (cases "move_assign t j oom w") (auto simp: outcome_def split: sum.splits)
        have "r0 \<noteq> Inl undefined_behaviour" using r0(2) nub by auto
        from move_assign_keeps [OF inv self_Inr [OF tx] self_Inr [OF Inr] r0(1) this lu tu]
        show ?thesis .
      qed
    qed
  next
    case (Dtor j)
    with la have ju: "j \<noteq> u" by simp
    show ?thesis
    proof (cases "self j w")
      case (Inl e)
      with ex Dtor lu show ?thesis by (simp add: dtor_def)
    next
      case (Inr y)
      from dtor_spec [OF inv self_Inr [OF Inr]] ex Dtor ju lu ul show ?thesis
        by (auto simp: live_def)
    qed
  qed (use None in simp_all)
qed

subsection \<open>A reference is handed out by a pinned object\<close>

lemma accessor_pins:
  assumes g: "g = (case self i w of
                     Inl e \<Rightarrow> (Inl e, w)
                   | Inr x \<Rightarrow> if empty_kv w x then (Inl err, w)
                              else guarded_call True body i x oom w)"
    and r: "r \<in> set (handed_out i g)"
  shows "ref_owner r = i \<and> pins (snd (and_write vo g)) r"
proof (cases "self i w")
  case (Inl e)
  with g r show ?thesis by (simp add: handed_out_def)
next
  case (Inr x)
  have il: "i < length (objs w)" using live_bound [OF self_Inr [OF Inr]] .
  show ?thesis
  proof (cases "empty_kv w x")
    case True
    with g r Inr show ?thesis by (simp add: handed_out_def)
  next
    case False
    with g Inr have gg: "g = guarded_call True body i x oom w" by simp
    from r obtain e p where ep: "fst g = Inr (e, p)"
      "r = \<lparr>ref_owner = i, ref_cell = p, ref_node = fst e\<rparr>"
      by (cases "fst g") (auto simp: handed_out_def)
    have "g = (fst g, snd g)" by simp
    then have "guarded_call True body i x oom w = (Inr (e, p), snd g)"
      unfolding ep(1) using gg by simp
    from guarded_call_pins [OF this il]
    have "live (snd g) i \<lparr>unshareable = True, dataPtr = Some p\<rparr>" .
    then show ?thesis using ep(2) by (simp add: pins_def)
  qed
qed

lemma references_pinned:
  assumes "r \<in> set (references oom op w)"
  shows "target op = Some (ref_owner r) \<and> pins (snd (exec oom op w)) r"
proof (cases op)
  case (Front i vo)
  with assms accessor_pins [OF front_def, where r = r and vo = vo] show ?thesis by (auto simp: pins_def)
next
  case (Back i vo)
  with assms accessor_pins [OF back_kv_def, where r = r and vo = vo] show ?thesis by (auto simp: pins_def)
next
  case (First i k vo)
  with assms accessor_pins [OF first_def, where r = r and vo = vo] show ?thesis by (auto simp: pins_def)
next
  case (Last i k vo)
  with assms accessor_pins [OF last_kv_def, where r = r and vo = vo] show ?thesis by (auto simp: pins_def)
qed (use assms in simp_all)

lemma sweep_drop: "Some r \<in> set (drop n (sweep w rs)) \<Longrightarrow> Some r \<in> set (drop n rs)"
  by (auto simp: sweep_def drop_map split: option.splits if_splits)

lemma length_sweep [simp]: "length (sweep w rs) = length rs"
  by (simp add: sweep_def)

subsection \<open>Programs that leave an object alone\<close>

lemma perform_frame:
  assumes inv: "winv w" and lu: "live w u z"
    and new: "\<forall>rf. Some rf \<in> set (drop n0 rs) \<longrightarrow> dataPtr z \<noteq> Some (ref_cell rf)"
    and sp: "spares u n0 s (w, rs)"
    and p: "perform s (w, rs) = (r, w', rs')" and nub: "r \<noteq> Some undefined_behaviour"
  shows "live w' u z \<and> snapshot w' ! u = snapshot w ! u \<and>
         (\<forall>rf. Some rf \<in> set (drop n0 rs') \<longrightarrow> dataPtr z \<noteq> Some (ref_cell rf))"
proof (cases s)
  case (Call sites op)
  let ?oom = "\<lambda>a. a \<in> set sites"
  from p Call have e: "exec ?oom op w = (r, w')"
    and rs': "rs' = sweep w' (rs @ map Some (references ?oom op w))"
    by (simp_all split: prod.splits)
  from sp Call have la: "leaves_alone u op" by simp
  have i': "winv w'" by (rule exec_winv [OF inv e nub])
  have l': "live w' u z" by (rule exec_keeps [OF inv lu la e nub])
  have "dataPtr z \<noteq> Some (ref_cell rf)" if "Some rf \<in> set (drop n0 rs')" for rf
  proof -
    from that rs' have "Some rf \<in> set (drop n0 (rs @ map Some (references ?oom op w)))"
      using sweep_drop by blast
    then have "Some rf \<in> set (drop n0 rs) \<or>
               Some rf \<in> set (drop (n0 - length rs) (map Some (references ?oom op w)))"
      by simp
    then have "Some rf \<in> set (drop n0 rs) \<or> rf \<in> set (references ?oom op w)"
      using in_set_dropD [of "Some rf" "n0 - length rs" "map Some (references ?oom op w)"]
      by auto
    then show ?thesis
    proof
      assume "Some rf \<in> set (drop n0 rs)"
      with new show ?thesis by blast
    next
      assume "rf \<in> set (references ?oom op w)"
      from references_pinned [OF this] e
      have t: "target op = Some (ref_owner rf)" and pn: "pins w' rf" by simp_all
      have "ref_owner rf \<noteq> u" by (rule leaves_alone_target [OF t la])
      with winv_pinned [OF i' pn [unfolded pins_def] _ _ l'] show ?thesis by simp
    qed
  qed
  with l' exec_frame [OF inv lu la e nub] show ?thesis by blast
next
  case (Store n v)
  with sp obtain rf where rf: "n < length rs" "rs ! n = Some rf"
    "n0 \<le> n \<or> ref_owner rf \<noteq> u \<and> pins w rf"
    by (auto split: option.splits)
  from p Store rf have w': "w' = write_ref (ref_cell rf) (ref_node rf) v w" "rs' = rs" by simp_all
  have "dataPtr z \<noteq> Some (ref_cell rf)"
  proof (cases "n0 \<le> n")
    case True
    then have "Some rf \<in> set (drop n0 rs)"
      using rf(1,2) by (auto simp: in_set_conv_nth intro!: exI [of _ "n - n0"])
    with new show ?thesis by blast
  next
    case False
    with rf(3) have o: "ref_owner rf \<noteq> u" and pn: "pins w rf" by simp_all
    with winv_pinned [OF inv pn [unfolded pins_def] _ _ lu] show ?thesis by simp
  qed
  from write_ref_frame [OF lu this, of "ref_node rf" v] new show ?thesis by (simp add: w')
qed

lemma runr_winv: "winv w \<Longrightarrow> runr prog (w, rs) = Some (w', rs') \<Longrightarrow> winv w'"
proof (induction prog arbitrary: w rs)
  case Nil
  then show ?case by simp
next
  case (Cons s prog)
  obtain r w1 rs1 where p: "perform s (w, rs) = (r, w1, rs1)"
    by (cases "perform s (w, rs)") auto
  with Cons.prems(2) have nub: "r \<noteq> Some undefined_behaviour"
    and rest: "runr prog (w1, rs1) = Some (w', rs')"
    by (auto split: option.splits error.splits)
  from perform_winv [OF Cons.prems(1) p nub] have "winv w1" .
  from Cons.IH [OF this rest] show ?case .
qed

lemma spared_frame:
  "winv w \<Longrightarrow> live w u z \<Longrightarrow>
   \<forall>rf. Some rf \<in> set (drop n0 rs) \<longrightarrow> dataPtr z \<noteq> Some (ref_cell rf) \<Longrightarrow>
   spared u n0 ms (w, rs) \<Longrightarrow> runr ms (w, rs) = Some (w', rs') \<Longrightarrow>
   winv w' \<and> live w' u z \<and> snapshot w' ! u = snapshot w ! u"
proof (induction ms arbitrary: w rs)
  case Nil
  then show ?case by simp
next
  case (Cons s ms)
  obtain r w1 rs1 where p: "perform s (w, rs) = (r, w1, rs1)"
    by (cases "perform s (w, rs)") auto
  with Cons.prems(5) have nub: "r \<noteq> Some undefined_behaviour"
    and rest: "runr ms (w1, rs1) = Some (w', rs')"
    by (auto split: option.splits error.splits)
  from Cons.prems(4) p have sp: "spares u n0 s (w, rs)" "spared u n0 ms (w1, rs1)" by simp_all
  from perform_winv [OF Cons.prems(1) p nub] have i1: "winv w1" .
  from perform_frame [OF Cons.prems(1,2,3) sp(1) p nub]
  have f: "live w1 u z" "snapshot w1 ! u = snapshot w ! u"
    "\<forall>rf. Some rf \<in> set (drop n0 rs1) \<longrightarrow> dataPtr z \<noteq> Some (ref_cell rf)"
    by simp_all
  from Cons.IH [OF i1 f(1,3) sp(2) rest] f(2) show ?case by simp
qed

text \<open>A program of calls alone runs as before, whatever references are kept.\<close>

lemma runr_calls:
  "run prog w = Some w' \<Longrightarrow> \<exists>rs'. runr (map (\<lambda>s. Call (fst s) (snd s)) prog) (w, rs) = Some (w', rs')"
proof (induction prog arbitrary: w rs)
  case Nil
  then show ?case by simp
next
  case (Cons s prog)
  obtain r w1 where e: "exec (\<lambda>a. a \<in> set (fst s)) (snd s) w = (r, w1)"
    by (cases "exec (\<lambda>a. a \<in> set (fst s)) (snd s) w")
  with Cons.prems have nub: "r \<noteq> Some undefined_behaviour" and rest: "run prog w1 = Some w'"
    by (auto split: option.splits error.splits)
  from Cons.IH [OF rest] e nub show ?case
    by (auto split: option.splits error.splits)
qed




subsection \<open>Pinning\<close>

lemma exec_ok_updated:
  assumes inv: "winv w" and lv: "live w i x" and t: "target op = Some i"
    and e: "exec oom op w = (None, w')"
  shows "(\<exists>es. updated w i (accessor op) es w') \<or> (op = Clear i \<and> dataPtr x = None \<and> w' = w)"
proof (cases op)
  case (Push j k v)
  with t e push_spec [OF inv lv, of k v oom] show ?thesis by auto
next
  case (Pop j)
  show ?thesis
  proof (cases "queue_of w x = []")
    case True
    with Pop t e pop_empty [OF inv lv True, of oom] show ?thesis by simp
  next
    case False
    with Pop t e pop_spec [OF inv lv False, of oom] show ?thesis by auto
  qed
next
  case (PopKey j k)
  show ?thesis
  proof (cases "k \<in> fst ` set (queue_of w x)")
    case False
    with PopKey t e pop_key_absent [OF inv lv False, of oom] show ?thesis by auto
  next
    case True
    with PopKey t e pop_key_spec [OF inv lv True, of oom] show ?thesis by auto
  qed
next
  case (MoveToBack j k)
  show ?thesis
  proof (cases "k \<in> fst ` set (queue_of w x)")
    case False
    with MoveToBack t e move_to_back_absent [OF inv lv False, of oom] show ?thesis by auto
  next
    case True
    with MoveToBack t e move_to_back_spec [OF inv lv True, of oom] show ?thesis by auto
  qed
next
  case (Clear j)
  show ?thesis
  proof (cases "dataPtr x")
    case None
    with Clear t e clear_null [OF inv lv None, of oom] show ?thesis by simp
  next
    case (Some p)
    with Clear t e clear_spec [OF inv lv Some, of oom] show ?thesis by auto
  qed
next
  case (Front j vo)
  show ?thesis
  proof (cases "queue_of w x = []")
    case True
    with Front t e front_empty [OF inv lv True, of oom] show ?thesis by simp
  next
    case False
    with Front t e front_spec [OF inv lv False, of oom vo] show ?thesis by auto
  qed
next
  case (Back j vo)
  show ?thesis
  proof (cases "queue_of w x = []")
    case True
    with Back t e back_empty [OF inv lv True, of oom] show ?thesis by simp
  next
    case False
    with Back t e back_spec [OF inv lv False, of oom vo] show ?thesis by auto
  qed
next
  case (First j k vo)
  show ?thesis
  proof (cases "k \<in> fst ` set (queue_of w x)")
    case False
    with First t e first_absent [OF inv lv False, of oom] show ?thesis by auto
  next
    case True
    with First t e first_spec [OF inv lv True, of oom vo] show ?thesis by auto
  qed
next
  case (Last j k vo)
  show ?thesis
  proof (cases "k \<in> fst ` set (queue_of w x)")
    case False
    with Last t e last_absent [OF inv lv False, of oom] show ?thesis by auto
  next
    case True
    with Last t e last_spec [OF inv lv True, of oom vo] show ?thesis by auto
  qed
qed (use t in simp_all)

lemma updated_private:
  assumes "updated w i True es w'"
  shows "\<exists>q. live w' i \<lparr>unshareable = True, dataPtr = Some q\<rparr> \<and>
             (\<forall>j y. live w' j y \<and> j \<noteq> i \<longrightarrow> dataPtr y \<noteq> Some q)"
proof -
  from assms obtain q where q: "live w' i \<lparr>unshareable = True, dataPtr = Some q\<rparr>" and w': "winv w'"
    by (auto simp: updated_def)
  from winv_pinned [OF w' q] q show ?thesis by auto
qed





text \<open>
  C10.  The claim: copy construction is well defined for every live object, also one that was
  moved from.  The code: an object that is pinned by a mutable accessor and then moved from keeps
  \<^verbatim>\<open>unshareable == true\<close> with a null \<^verbatim>\<open>dataPtr\<close>; the copy constructor then takes the
  branch that evaluates \<^verbatim>\<open>*other.dataPtr\<close>.  The program below constructs an object, pushes one
  entry, calls the mutable \<^verbatim>\<open>front()\<close>, move-constructs a second object from it, and then
  copy-constructs from the first: the last statement dereferences the null pointer.
\<close>

theorem copy_ctor_moved_from_pinned:
  "run [([], Ctor), ([], Push 0 (1::nat) (10::nat)), ([], Front 0 None), ([], MoveCtor 0)] init_world
     = Some \<lparr>cells = [\<lparr>iterator_list_map = [(1, [0])], pair_list = [(0, 1, 10)]\<rparr>],
              objs = [Some \<lparr>unshareable = True, dataPtr = None\<rparr>,
                      Some \<lparr>unshareable = True, dataPtr = Some 0\<rparr>]\<rparr> \<and>
   fst (copy_ctor 0 no_oom
          \<lparr>cells = [\<lparr>iterator_list_map = [(1::nat, [0])], pair_list = [(0, 1, 10::nat)]\<rparr>],
           objs = [Some \<lparr>unshareable = True, dataPtr = None\<rparr>,
                   Some \<lparr>unshareable = True, dataPtr = Some 0\<rparr>]\<rparr>)
     = Inl undefined_behaviour"
  by code_simp

end
